theory Spec2Isabelle
  imports Complex_Main
begin

section \<open>The vibegraph overlay: data model\<close>

text \<open>
  The overlay component (the script of the vibegraph overlay page) keeps a list of devices,
  a playback clock and, in the chart, one dataset per entry of \<open>LINE_COLORS\<close>; every
  dataset holds a reference to an array of points. The model follows the script function by
  function: \<open>mapVibeTargets\<close>, \<open>addFrame\<close>, \<open>advance\<close>, \<open>prune\<close>, \<open>update\<close>,
  \<open>getLength\<close>, \<open>isEmpty\<close>, \<open>resetGroup\<close>, \<open>setGroup\<close>, \<open>updateDevices\<close>,
  \<open>updateLoop\<close>, \<open>startUpdateLoop\<close> and the message handler of \<open>wsConnect\<close>. The
  drawing plugins, the colours and the formatting of the remaining time read the state and
  do not change it; they are left out. JavaScript numbers are modelled as real numbers
  (finite values, exact arithmetic); strings as \<open>string\<close>.

  Field names that would clash are prefixed: \<open>Point.x\<close>, \<open>Point.y\<close> are \<open>px\<close>, \<open>py\<close>;
  \<open>VibeTarget.value\<close> is \<open>target_value\<close>; \<open>VibeFrame.id\<close>, \<open>VibeFrame.value\<close> are
  \<open>frame_id\<close>, \<open>frame_value\<close>; \<open>VibeGroup.username\<close> is \<open>group_username\<close>.
\<close>

definition VISIBLE_PAST :: real where
  "VISIBLE_PAST = 5000"

definition VISIBLE_FUTURE :: real where
  "VISIBLE_FUTURE = 5000"

definition STEP_SMOOTHING :: real where
  "STEP_SMOOTHING = 100"

definition LINE_COLORS :: "(nat \<times> nat \<times> nat) list" where
  "LINE_COLORS = [(242, 12, 127), (12, 242, 242), (242, 242, 242), (242, 242, 127), (12, 242, 12)]"

record VibeConfig =
  hidden :: bool
  paused :: bool
  strength :: real

datatype VibeTargetMode = OVERRIDE | EXCLUSIVE

record VibeTarget =
  device :: string
  target_value :: real

record VibeFrame =
  frame_id :: nat
  duration :: real
  frame_value :: real
  targets :: "VibeTarget list"
  mode :: VibeTargetMode

record VibeGroup =
  group_username :: string
  frames :: "VibeFrame list"

record VibeDevice =
  name :: string

record Point =
  px :: real
  py :: real

text \<open>
  The component's variables. \<open>datasets\<close> lists, for each dataset of the chart in order,
  the address of the array its \<open>data\<close> field refers to, and \<open>heap\<close> is the store of
  those arrays: \<open>push\<close>, \<open>splice\<close> and \<open>data.length = 0\<close> change the array at an
  address, \<open>ds.data = ...\<close> changes the address a dataset holds. \<open>x_min\<close> and \<open>x_max\<close>
  are the bounds of the chart's x scale, and \<open>redraws\<close> counts the calls of
  \<open>chart.update()\<close>.
\<close>

record state =
  config :: VibeConfig
  devices :: "VibeDevice list"
  username :: string
  tFrameBegin :: real
  tFrameEnd :: real
  tNow :: real
  tTotal :: real
  tUpdatedAt :: real
  rafId :: nat
  datasets :: "nat list"
  heap :: "nat \<Rightarrow> Point list"
  x_min :: real
  x_max :: real
  redraws :: nat

text \<open>
  The state once \<open>initChart\<close> has run: one dataset per colour, each with an empty array
  of its own.
\<close>

definition init_state :: state where
  "init_state = \<lparr>
     config = \<lparr>hidden = False, paused = False, strength = 100\<rparr>,
     devices = [],
     username = [],
     tFrameBegin = 0,
     tFrameEnd = 0,
     tNow = 0,
     tTotal = 0,
     tUpdatedAt = 0,
     rafId = 0,
     datasets = [0..<length LINE_COLORS],
     heap = (\<lambda>_. []),
     x_min = - VISIBLE_PAST,
     x_max = VISIBLE_FUTURE,
     redraws = 0\<rparr>"

section \<open>Target resolution\<close>

text \<open>
  \<open>mapVibeTargets\<close>: the explicit targets are set first, in the order of the frame; in
  OVERRIDE mode every device of the list that has no entry yet gets the frame's value.
\<close>

definition mapVibeTargets :: "VibeFrame \<Rightarrow> state \<Rightarrow> (string \<rightharpoonup> VibeTarget)" where
  "mapVibeTargets frame s =
     (let explicit = foldl (\<lambda>m target. m(device target \<mapsto> target)) Map.empty (targets frame) in
      if mode frame = OVERRIDE then
        foldl (\<lambda>m d. if m (name d) = None
                       then m(name d \<mapsto> \<lparr>device = name d, target_value = frame_value frame\<rparr>)
                       else m)
          explicit (devices s)
      else explicit)"

section \<open>Timeline buffer\<close>

text \<open>
  The body of the \<open>forEach\<close> of \<open>addFrame\<close>, for the device at one index and the
  dataset at the same index (a device whose index has no dataset is skipped, which is what
  \<open>zip\<close> does below). An entry of the map is an object, so the test \<open>!target\<close> of the
  source holds exactly when the name has no entry. \<open>t0\<close> is \<open>tTotal\<close>, which the loop
  does not change.
\<close>

definition addFrame_device ::
  "VibeFrame \<Rightarrow> real \<Rightarrow> (string \<rightharpoonup> VibeTarget) \<Rightarrow> bool \<times> (nat \<Rightarrow> Point list) \<Rightarrow> VibeDevice \<times> nat
     \<Rightarrow> bool \<times> (nat \<Rightarrow> Point list)" where
  "addFrame_device frame t0 targetByDevice acc dd =
     (case targetByDevice (name (fst dd)) of
        None \<Rightarrow> acc
      | Some target \<Rightarrow>
          (True, (snd acc)(snd dd := snd acc (snd dd) @
             [\<lparr>px = t0, py = target_value target\<rparr>,
              \<lparr>px = t0 + duration frame - min (duration frame * 0.2) STEP_SMOOTHING,
               py = target_value target\<rparr>])))"

definition addFrame :: "VibeFrame \<Rightarrow> state \<Rightarrow> bool \<times> state" where
  "addFrame frame s =
     (if duration frame \<le> 0 then (False, s)
      else
        let targetByDevice = mapVibeTargets frame s;
            r = foldl (addFrame_device frame (tTotal s) targetByDevice) (False, heap s)
                  (zip (devices s) (datasets s))
        in if \<not> fst r then (False, s)
           else (True, s\<lparr>heap := snd r, tTotal := tTotal s + duration frame\<rparr>))"

definition advance :: "real \<Rightarrow> state \<Rightarrow> bool \<times> state" where
  "advance amount s =
     (if amount \<le> 0 then (False, s)
      else (True, s\<lparr>tFrameBegin := tFrameEnd s,
                     tFrameEnd := tFrameEnd s + amount,
                     tNow := tFrameEnd s\<rparr>))"

text \<open>The \<open>while\<close> loop of \<open>prune\<close>: the first index whose point is not before the cutoff.\<close>

function prune_scan :: "Point list \<Rightarrow> real \<Rightarrow> nat \<Rightarrow> nat" where
  "prune_scan data cutoff i =
     (if i < length data \<and> px (data ! i) < cutoff then prune_scan data cutoff (Suc i) else i)"
  by pat_completeness auto
termination
  by (relation "measure (\<lambda>(data, cutoff, i). length data - i)") auto

declare prune_scan.simps [simp del]

text \<open>What \<open>prune\<close> leaves of one array.\<close>

definition prune_data :: "real \<Rightarrow> Point list \<Rightarrow> Point list" where
  "prune_data cutoff data =
     (let i = prune_scan data cutoff 0 in
      if i = length data then []
      else if 1 < i then drop (i - 1) data
      else data)"

text \<open>The body of the \<open>forEach\<close> of \<open>prune\<close>, for the dataset whose array is at \<open>ds\<close>.\<close>

definition prune_dataset ::
  "real \<Rightarrow> bool \<times> (nat \<Rightarrow> Point list) \<Rightarrow> nat \<Rightarrow> bool \<times> (nat \<Rightarrow> Point list)" where
  "prune_dataset cutoff acc ds =
     (let data = snd acc ds in
      if data = [] then acc
      else
        let i = prune_scan data cutoff 0 in
        if i = length data then (True, (snd acc)(ds := []))
        else if 1 < i then (True, (snd acc)(ds := drop (i - 1) data))
        else acc)"

definition prune :: "state \<Rightarrow> bool \<times> state" where
  "prune s =
     (let cutoff = tNow s - VISIBLE_PAST;
          r = foldl (prune_dataset cutoff) (False, heap s) (datasets s)
      in (fst r, s\<lparr>heap := snd r\<rparr>))"

text \<open>
  \<open>update\<close>; \<open>t\<close> is the reading of \<open>performance.now()\<close>, \<open>adv\<close> the parameter
  \<open>advance\<close> of the source.
\<close>

definition update :: "bool \<Rightarrow> real \<Rightarrow> state \<Rightarrow> bool \<times> state" where
  "update adv t s =
     (let dt = t - tUpdatedAt s;
          s1 = s\<lparr>tUpdatedAt := t\<rparr>
      in if dt \<le> 0 then (False, s1)
         else
           let moved = (adv \<and> tNow s1 < tFrameEnd s1);
               s2 = (if moved
                     then s1\<lparr>tNow := min (tNow s1 + dt) (tFrameEnd s1),
                             x_min := min (tNow s1 + dt) (tFrameEnd s1) - VISIBLE_PAST,
                             x_max := min (tNow s1 + dt) (tFrameEnd s1) + VISIBLE_FUTURE\<rparr>
                     else s1);
               p = prune s2;
               hasChanged = (fst p \<or> moved)
           in (hasChanged,
               if hasChanged then (snd p)\<lparr>redraws := Suc (redraws (snd p))\<rparr> else snd p))"

text \<open>
  \<open>getLength\<close> reads the first dataset only. The chart always has the datasets of
  \<open>initChart\<close>, so the list is never empty when the code runs.
\<close>

definition getLength :: "state \<Rightarrow> nat" where
  "getLength s = (case datasets s of [] \<Rightarrow> 0 | ds # _ \<Rightarrow> length (heap s ds))"

definition isEmpty :: "state \<Rightarrow> bool" where
  "isEmpty s = (getLength s = 0)"

definition resetGroup :: "state \<Rightarrow> bool \<times> state" where
  "resetGroup s =
     (let s1 = s\<lparr>tFrameBegin := 0, tFrameEnd := 0, tNow := 0, tTotal := 0, username := []\<rparr> in
      if isEmpty s1 then (False, s1)
      else (True, s1\<lparr>heap := foldl (\<lambda>h ds. h(ds := [])) (heap s1) (datasets s1)\<rparr>))"

definition setGroup :: "VibeGroup \<Rightarrow> state \<Rightarrow> bool \<times> state" where
  "setGroup grp s =
     (let r = resetGroup s;
          hasChanged = (fst r \<or> username (snd r) \<noteq> group_username grp);
          s1 = (snd r)\<lparr>username := group_username grp\<rparr>
      in foldl (\<lambda>acc frame. let a = addFrame frame (snd acc) in (fst a \<or> fst acc, snd a))
           (hasChanged, s1) (frames grp))"

section \<open>Device registry\<close>

text \<open>
  A new array gets an address above every address a dataset holds. \<open>updateDevices\<close>
  copies each old array (\<open>[...ds.data]\<close>) into a map keyed by device name, replaces the
  device list, points each dataset of a device to the copy for its name (or to a new empty
  array), and empties, in place, the arrays of the datasets left over.
\<close>

definition fresh :: "state \<Rightarrow> nat" where
  "fresh s = Suc (foldr max (datasets s) 0)"

definition copy_old ::
  "(string \<rightharpoonup> nat) \<times> (nat \<Rightarrow> Point list) \<times> nat \<Rightarrow> VibeDevice \<times> nat
     \<Rightarrow> (string \<rightharpoonup> nat) \<times> (nat \<Rightarrow> Point list) \<times> nat" where
  "copy_old acc dd =
     (case acc of (oldDataByName, h, n) \<Rightarrow>
        (oldDataByName(name (fst dd) \<mapsto> n), h(n := h (snd dd)), Suc n))"

definition rebuild ::
  "(string \<rightharpoonup> nat) \<Rightarrow> nat list \<times> (nat \<Rightarrow> Point list) \<times> nat \<Rightarrow> VibeDevice
     \<Rightarrow> nat list \<times> (nat \<Rightarrow> Point list) \<times> nat" where
  "rebuild oldDataByName acc d =
     (case acc of (refs, h, n) \<Rightarrow>
        (case oldDataByName (name d) of
           Some a \<Rightarrow> (refs @ [a], h, n)
         | None \<Rightarrow> (refs @ [n], h(n := []), Suc n)))"

definition updateDevices :: "VibeDevice list \<Rightarrow> state \<Rightarrow> bool \<times> state" where
  "updateDevices updatedDevices s =
     (if length (devices s) = length updatedDevices \<and>
         list_all2 (\<lambda>d u. name d = name u) (devices s) updatedDevices
      then (False, s)
      else
        let old = foldl copy_old (Map.empty, heap s, fresh s) (zip (devices s) (datasets s));
            devices' = take (length (datasets s)) updatedDevices;
            new = foldl (rebuild (fst old)) ([], snd old) devices';
            leftover = drop (length devices') (datasets s);
            h = foldl (\<lambda>h ds. h(ds := [])) (fst (snd new)) leftover
        in (True, s\<lparr>devices := devices', datasets := fst new @ leftover, heap := h\<rparr>))"

section \<open>Animation loop and event dispatch\<close>

text \<open>
  \<open>requestAnimationFrame\<close> returns a handle that is not zero; the model stores 1.
  \<open>t\<close> is the reading of \<open>performance.now()\<close> in the call of \<open>update\<close>.
\<close>

definition updateLoop :: "real \<Rightarrow> state \<Rightarrow> state" where
  "updateLoop t s =
     (if isEmpty s then snd (resetGroup (s\<lparr>rafId := 0\<rparr>))
      else (snd (update True t s))\<lparr>rafId := 1\<rparr>)"

definition startUpdateLoop :: "real \<Rightarrow> state \<Rightarrow> state" where
  "startUpdateLoop t s = (if rafId s \<noteq> 0 then s else updateLoop t s)"

datatype msg =
  Ping
  | UpdateConfig VibeConfig
  | UpdateDevices "VibeDevice list"
  | ResetGroup
  | SetGroup VibeGroup
  | AddFrame VibeFrame
  | Advance real
  | Unknown string

text \<open>
  The handler \<open>ws.onmessage\<close>. \<open>t1\<close> is the clock reading of the update that
  \<open>startUpdateLoop\<close> may run, \<open>t2\<close> the reading of the final \<open>update(false)\<close>.
\<close>

definition onmessage :: "msg \<Rightarrow> real \<Rightarrow> real \<Rightarrow> state \<Rightarrow> state" where
  "onmessage m t1 t2 s =
     (let r = (case m of
                 Ping \<Rightarrow> (False, s)
               | UpdateConfig c \<Rightarrow> (False, s\<lparr>config := c\<rparr>)
               | UpdateDevices ds \<Rightarrow> updateDevices ds s
               | ResetGroup \<Rightarrow> (False, snd (resetGroup s))
               | SetGroup g \<Rightarrow> (let a = setGroup g s in (fst a, startUpdateLoop t1 (snd a)))
               | AddFrame f \<Rightarrow> (let a = addFrame f s in (fst a, startUpdateLoop t1 (snd a)))
               | Advance amount \<Rightarrow> advance amount s
               | Unknown _ \<Rightarrow> (False, s))
      in if fst r then snd (update False t2 (snd r)) else snd r)"

text \<open>
  The operations that change the component's state, and a run of them from a state.
\<close>

datatype operation =
  OpAdvance real
  | OpUpdate bool real
  | OpAddFrame VibeFrame
  | OpSetGroup VibeGroup
  | OpResetGroup
  | OpUpdateDevices "VibeDevice list"
  | OpPrune
  | OpAnimationFrame real
  | OpMessage msg real real

fun apply_op :: "state \<Rightarrow> operation \<Rightarrow> state" where
  "apply_op s (OpAdvance amount) = snd (advance amount s)"
| "apply_op s (OpUpdate adv t) = snd (update adv t s)"
| "apply_op s (OpAddFrame frame) = snd (addFrame frame s)"
| "apply_op s (OpSetGroup grp) = snd (setGroup grp s)"
| "apply_op s OpResetGroup = snd (resetGroup s)"
| "apply_op s (OpUpdateDevices ds) = snd (updateDevices ds s)"
| "apply_op s OpPrune = snd (prune s)"
| "apply_op s (OpAnimationFrame t) = updateLoop t s"
| "apply_op s (OpMessage m t1 t2) = onmessage m t1 t2 s"

definition run :: "operation list \<Rightarrow> state \<Rightarrow> state" where
  "run ops s = foldl apply_op s ops"

section \<open>Example inputs\<close>

text \<open>
  States and frames used to evaluate the functions: the device lists \<open>[X]\<close>,
  \<open>[A, B]\<close> and \<open>[B, A]\<close> set on the initial state, a frame of one second with no
  explicit target, and a frame with the explicit target \<open>A: 0.5\<close> and the value 0.9.
\<close>

definition state_X :: state where
  "state_X = snd (updateDevices [\<lparr>name = ''X''\<rparr>] init_state)"

definition state_AB :: state where
  "state_AB = snd (updateDevices [\<lparr>name = ''A''\<rparr>, \<lparr>name = ''B''\<rparr>] init_state)"

definition frame_1000 :: VibeFrame where
  "frame_1000 = \<lparr>frame_id = 1, duration = 1000, frame_value = 1, targets = [], mode = OVERRIDE\<rparr>"

definition frame_A :: "VibeTargetMode \<Rightarrow> VibeFrame" where
  "frame_A m = \<lparr>frame_id = 2, duration = 1000, frame_value = 0.9,
                targets = [\<lparr>device = ''A'', target_value = 0.5\<rparr>], mode = m\<rparr>"

definition frame_B :: VibeFrame where
  "frame_B = \<lparr>frame_id = 3, duration = 500, frame_value = 0.9,
              targets = [\<lparr>device = ''B'', target_value = 0.25\<rparr>], mode = EXCLUSIVE\<rparr>"

definition state_XX :: state where
  "state_XX = snd (updateDevices [\<lparr>name = ''X''\<rparr>, \<lparr>name = ''X''\<rparr>] state_X)"

definition state_played :: state where
  "state_played =
     run [OpAddFrame frame_1000, OpAddFrame frame_1000, OpAddFrame frame_1000,
          OpAdvance 6500, OpAdvance 1000] state_X"

definition state_AB_data :: state where
  "state_AB_data = snd (addFrame (frame_A OVERRIDE) state_AB)"

definition state_unordered :: state where
  "state_unordered =
     run [OpAddFrame (frame_B\<lparr>duration := 1000\<rparr>), OpResetGroup, OpAddFrame frame_B,
          OpAdvance 5450, OpAdvance 1] state_AB"

section \<open>Predicates of the statements\<close>

text \<open>
  An array is ordered up to \<open>t\<close> when its times do not decrease and none is after \<open>t\<close>.
  A timeline is in order when every dataset has an array of its own and every array is
  ordered up to \<open>tTotal\<close>.
\<close>

definition ordered_upto :: "real \<Rightarrow> Point list \<Rightarrow> bool" where
  "ordered_upto t data = (sorted (map px data) \<and> list_all (\<lambda>p. px p \<le> t) data)"

definition timeline_ok :: "state \<Rightarrow> bool" where
  "timeline_ok s =
     (distinct (datasets s) \<and> list_all (\<lambda>a. ordered_upto (tTotal s) (heap s a)) (datasets s))"

definition clock_bound :: "state \<Rightarrow> bool" where
  "clock_bound s = (tFrameBegin s \<le> tNow s \<and> tNow s \<le> tFrameEnd s)"

text \<open>
  The datasets are in order when each has an array of its own and every device has a
  dataset. An operation keeps distinct names when the device list it brings, if any,
  repeats no name.
\<close>

definition slots_ok :: "state \<Rightarrow> bool" where
  "slots_ok s = (distinct (datasets s) \<and> length (devices s) \<le> length (datasets s))"

fun names_distinct :: "operation \<Rightarrow> bool" where
  "names_distinct (OpUpdateDevices ds) = distinct (map name ds)"
| "names_distinct (OpMessage (UpdateDevices ds) t1 t2) = distinct (map name ds)"
| "names_distinct _ = True"

section \<open>Evaluation of the examples\<close>

lemma init_datasets: "datasets init_state = [0, 1, 2, 3, 4]"
  by (simp add: init_state_def LINE_COLORS_def upt_rec)

lemma init_fields:
  "devices init_state = []" "heap init_state = (\<lambda>_. [])" "tTotal init_state = 0"
  "tFrameBegin init_state = 0" "tFrameEnd init_state = 0" "tNow init_state = 0"
  "tUpdatedAt init_state = 0" "rafId init_state = 0" "redraws init_state = 0"
  by (simp_all add: init_state_def)

lemma state_X_fields:
  "devices state_X = [\<lparr>name = ''X''\<rparr>]" "datasets state_X = [5, 1, 2, 3, 4]"
  "heap state_X a = []" "tTotal state_X = 0"
  "tFrameBegin state_X = 0" "tFrameEnd state_X = 0" "tNow state_X = 0"
  "tUpdatedAt state_X = 0" "rafId state_X = 0" "redraws state_X = 0"
  by (simp_all add: state_X_def updateDevices_def init_datasets init_fields Let_def
      rebuild_def copy_old_def fresh_def)

lemma state_AB_fields:
  "devices state_AB = [\<lparr>name = ''A''\<rparr>, \<lparr>name = ''B''\<rparr>]" "datasets state_AB = [5, 6, 2, 3, 4]"
  "heap state_AB a = []" "tTotal state_AB = 0"
  "tFrameBegin state_AB = 0" "tFrameEnd state_AB = 0" "tNow state_AB = 0"
  "tUpdatedAt state_AB = 0" "rafId state_AB = 0" "redraws state_AB = 0"
  by (simp_all add: state_AB_def updateDevices_def init_datasets init_fields Let_def
      rebuild_def copy_old_def fresh_def)

section \<open>Guards of advance and addFrame\<close>

text \<open>
  Claim C7. \<open>advance\<close> with an amount that is not positive, and \<open>addFrame\<close> with a
  duration that is not positive, return false and leave the state as it is. For a positive
  amount \<open>advance\<close> returns true, sets \<open>frameBegin\<close> to the previous \<open>frameEnd\<close>,
  adds the amount to \<open>frameEnd\<close> and sets \<open>now\<close> to the new \<open>frameBegin\<close>; nothing
  else changes.
\<close>

theorem guards_and_advance:
  "(amount \<le> 0 \<longrightarrow> advance amount s = (False, s)) \<and>
   (duration frame \<le> 0 \<longrightarrow> addFrame frame s = (False, s)) \<and>
   (0 < amount' \<longrightarrow>
      advance amount' s =
        (True, s\<lparr>tFrameBegin := tFrameEnd s, tFrameEnd := tFrameEnd s + amount', tNow := tFrameEnd s\<rparr>) \<and>
      tFrameBegin (snd (advance amount' s)) = tFrameEnd s \<and>
      tFrameEnd (snd (advance amount' s)) = tFrameEnd s + amount' \<and>
      tNow (snd (advance amount' s)) = tFrameBegin (snd (advance amount' s)))"
  by (simp add: advance_def addFrame_def)

theorem guards_and_advance_witness:
  "advance 0 state_X = (False, state_X) \<and>
   addFrame (frame_1000\<lparr>duration := 0\<rparr>) state_X = (False, state_X) \<and>
   fst (advance 250 (snd (advance 100 state_X))) \<and>
   tFrameBegin (snd (advance 250 (snd (advance 100 state_X)))) = 100 \<and>
   tFrameEnd (snd (advance 250 (snd (advance 100 state_X)))) = 350 \<and>
   tNow (snd (advance 250 (snd (advance 100 state_X)))) = 100"
  using guards_and_advance [of 0 state_X "frame_1000\<lparr>duration := 0\<rparr>" 250]
    guards_and_advance [of 0 "snd (advance 100 state_X)" "frame_1000\<lparr>duration := 0\<rparr>" 250]
    guards_and_advance [of 0 state_X "frame_1000\<lparr>duration := 0\<rparr>" 100]
  by (simp add: state_X_fields)

section \<open>Target resolution\<close>

lemma explicit_fold:
  "foldl (\<lambda>m target. m(device target \<mapsto> target)) m0 ts n =
     (if filter (\<lambda>t. device t = n) ts = [] then m0 n
      else Some (last (filter (\<lambda>t. device t = n) ts)))"
  by (induction ts arbitrary: m0) auto

lemma override_fold:
  "foldl (\<lambda>m d. if m (name d) = None then m(name d \<mapsto> \<lparr>device = name d, target_value = v\<rparr>) else m) m0 ds n =
     (case m0 n of
        Some t \<Rightarrow> Some t
      | None \<Rightarrow> if n \<in> name ` set ds then Some \<lparr>device = n, target_value = v\<rparr> else None)"
  by (induction ds arbitrary: m0) (auto split: option.splits)

text \<open>
  Claim C5. The target resolved for a device name is a function of the frame and the device
  list: the last explicit target of the frame for that name if there is one; otherwise, in
  OVERRIDE mode, the frame's value when the name is in the device list; otherwise nothing.
\<close>

theorem mapVibeTargets_resolves:
  "mapVibeTargets frame s n =
     (if filter (\<lambda>t. device t = n) (targets frame) \<noteq> []
      then Some (last (filter (\<lambda>t. device t = n) (targets frame)))
      else if mode frame = OVERRIDE \<and> n \<in> name ` set (devices s)
      then Some \<lparr>device = n, target_value = frame_value frame\<rparr>
      else None)"
  by (simp add: mapVibeTargets_def Let_def explicit_fold override_fold)

text \<open>
  The devices \<open>A\<close>, \<open>B\<close> and a frame with the target \<open>A: 0.5\<close> and the value 0.9:
  OVERRIDE resolves \<open>A: 0.5\<close>, \<open>B: 0.9\<close>, EXCLUSIVE resolves \<open>A: 0.5\<close> only.
\<close>

theorem mapVibeTargets_example:
  "mapVibeTargets (frame_A OVERRIDE) state_AB =
     [''A'' \<mapsto> \<lparr>device = ''A'', target_value = 0.5\<rparr>, ''B'' \<mapsto> \<lparr>device = ''B'', target_value = 0.9\<rparr>] \<and>
   mapVibeTargets (frame_A EXCLUSIVE) state_AB = [''A'' \<mapsto> \<lparr>device = ''A'', target_value = 0.5\<rparr>]"
proof -
  have "mapVibeTargets (frame_A OVERRIDE) state_AB n =
     [''A'' \<mapsto> \<lparr>device = ''A'', target_value = 0.5\<rparr>, ''B'' \<mapsto> \<lparr>device = ''B'', target_value = 0.9\<rparr>] n" for n
    using mapVibeTargets_resolves [of "frame_A OVERRIDE" state_AB n]
    by (simp add: frame_A_def state_AB_fields)
  moreover have "mapVibeTargets (frame_A EXCLUSIVE) state_AB n =
     [''A'' \<mapsto> \<lparr>device = ''A'', target_value = 0.5\<rparr>] n" for n
    using mapVibeTargets_resolves [of "frame_A EXCLUSIVE" state_AB n]
    by (simp add: frame_A_def state_AB_fields)
  ultimately show ?thesis by blast
qed

text \<open>A duplicated device name: the last target of the list wins.\<close>

lemma mapVibeTargets_last_wins:
  "mapVibeTargets (frame_1000\<lparr>targets := [\<lparr>device = ''X'', target_value = 0.1\<rparr>, \<lparr>device = ''X'', target_value = 0.7\<rparr>]\<rparr>) state_X ''X''
     = Some \<lparr>device = ''X'', target_value = 0.7\<rparr>"
  by (simp add: mapVibeTargets_def frame_1000_def state_X_fields)

section \<open>addFrame: what is appended\<close>

text \<open>
  The loop of \<open>addFrame\<close> reports a change exactly when some paired device has a target,
  and appends to the array at an address the two points of every paired device whose
  dataset holds that address, in the order of the device list.
\<close>

lemma addFrame_fold_changed:
  "fst (foldl (addFrame_device frame t0 tgt) acc dds) =
     (fst acc \<or> (\<exists>dd \<in> set dds. tgt (name (fst dd)) \<noteq> None))"
  by (induction dds arbitrary: acc) (auto simp: addFrame_device_def split: option.splits)

lemma addFrame_fold_heap:
  "snd (foldl (addFrame_device frame t0 tgt) acc dds) a =
     snd acc a @ concat (map (\<lambda>dd. if snd dd = a
        then (case tgt (name (fst dd)) of
                None \<Rightarrow> []
              | Some target \<Rightarrow>
                  [\<lparr>px = t0, py = target_value target\<rparr>,
                   \<lparr>px = t0 + duration frame - min (duration frame * 0.2) STEP_SMOOTHING,
                    py = target_value target\<rparr>])
        else []) dds)"
  by (induction dds arbitrary: acc) (auto simp: addFrame_device_def split: option.splits)

lemma addFrame_fold_unchanged:
  "\<forall>dd \<in> set dds. tgt (name (fst dd)) = None \<Longrightarrow>
   foldl (addFrame_device frame t0 tgt) acc dds = acc"
  by (induction dds arbitrary: acc) (auto simp: addFrame_device_def)

lemma concat_at_distinct:
  "distinct ys \<Longrightarrow> i < length xs \<Longrightarrow> i < length ys \<Longrightarrow>
   concat (map (\<lambda>dd. if snd dd = ys ! i then g (fst dd) else []) (zip xs ys)) = g (xs ! i)"
proof (induction xs arbitrary: ys i)
  case Nil
  then show ?case by simp
next
  case (Cons x xs)
  then obtain y ys' where ys: "ys = y # ys'" by (cases ys) auto
  show ?case
  proof (cases i)
    case 0
    have "\<forall>dd \<in> set (zip xs ys'). snd dd \<noteq> y"
      using Cons.prems(1) ys by (auto dest: set_zip_rightD)
    then have "concat (map (\<lambda>dd. if snd dd = y then g (fst dd) else []) (zip xs ys')) = []"
      by (induction "zip xs ys'") auto
    then show ?thesis using 0 ys by simp
  next
    case (Suc j)
    have "ys' ! j \<noteq> y" using Cons.prems ys Suc by auto
    moreover have "concat (map (\<lambda>dd. if snd dd = ys' ! j then g (fst dd) else []) (zip xs ys')) = g (xs ! j)"
      using Cons.IH [of ys' j] Cons.prems ys Suc by simp
    ultimately show ?thesis using Suc ys by simp
  qed
qed

lemma addFrame_fields:
  "devices (snd (addFrame frame s)) = devices s"
  "datasets (snd (addFrame frame s)) = datasets s"
  "tFrameBegin (snd (addFrame frame s)) = tFrameBegin s"
  "tFrameEnd (snd (addFrame frame s)) = tFrameEnd s"
  "tNow (snd (addFrame frame s)) = tNow s"
  by (simp_all add: addFrame_def Let_def)

lemma addFrame_heap:
  assumes pos: "0 < duration frame"
  shows "heap (snd (addFrame frame s)) a =
     heap s a @ concat (map (\<lambda>dd. if snd dd = a
        then (case mapVibeTargets frame s (name (fst dd)) of
                None \<Rightarrow> []
              | Some target \<Rightarrow>
                  [\<lparr>px = tTotal s, py = target_value target\<rparr>,
                   \<lparr>px = tTotal s + duration frame - min (duration frame * 0.2) STEP_SMOOTHING,
                    py = target_value target\<rparr>])
        else []) (zip (devices s) (datasets s)))"
proof (cases "fst (foldl (addFrame_device frame (tTotal s) (mapVibeTargets frame s)) (False, heap s)
                  (zip (devices s) (datasets s)))")
  case True
  with pos show ?thesis
    by (simp add: addFrame_def Let_def addFrame_fold_heap)
next
  case False
  then have none: "\<forall>dd \<in> set (zip (devices s) (datasets s)). mapVibeTargets frame s (name (fst dd)) = None"
    by (simp add: addFrame_fold_changed)
  then have "concat (map (\<lambda>dd. if snd dd = a
        then (case mapVibeTargets frame s (name (fst dd)) of
                None \<Rightarrow> []
              | Some target \<Rightarrow>
                  [\<lparr>px = tTotal s, py = target_value target\<rparr>,
                   \<lparr>px = tTotal s + duration frame - min (duration frame * 0.2) STEP_SMOOTHING,
                    py = target_value target\<rparr>])
        else []) (zip (devices s) (datasets s))) = []"
    by (induction "zip (devices s) (datasets s)") auto
  with False pos show ?thesis
    by (simp add: addFrame_def Let_def)
qed

lemma addFrame_changed:
  "0 < duration frame \<Longrightarrow>
   fst (addFrame frame s) =
     (\<exists>dd \<in> set (zip (devices s) (datasets s)). mapVibeTargets frame s (name (fst dd)) \<noteq> None)"
  by (simp add: addFrame_def Let_def addFrame_fold_changed)

lemma addFrame_total:
  "tTotal (snd (addFrame frame s)) =
     (if fst (addFrame frame s) then tTotal s + duration frame else tTotal s)"
  by (simp add: addFrame_def Let_def)

lemma zip_fst_set:
  "length xs \<le> length ys \<Longrightarrow> fst ` set (zip xs ys) = set xs"
proof (induction xs arbitrary: ys)
  case Nil
  then show ?case by simp
next
  case (Cons x xs)
  then show ?case by (cases ys) auto
qed

section \<open>addFrame: frames that reach no device\<close>

lemma addFrame_none:
  assumes none: "\<forall>d \<in> set (devices s). mapVibeTargets frame s (name d) = None"
  shows "addFrame frame s = (False, s)"
proof -
  have "\<forall>dd \<in> set (zip (devices s) (datasets s)). mapVibeTargets frame s (name (fst dd)) = None"
    using none by (auto dest: set_zip_leftD)
  then show ?thesis
    by (simp add: addFrame_def Let_def addFrame_fold_unchanged)
qed

lemma exclusive_unlisted:
  assumes "mode frame = EXCLUSIVE"
    and "device ` set (targets frame) \<inter> name ` set (devices s) = {}"
    and "d \<in> set (devices s)"
  shows "mapVibeTargets frame s (name d) = None"
proof -
  have "name d \<notin> device ` set (targets frame)"
    using assms(2,3) by auto
  then have "filter (\<lambda>t. device t = name d) (targets frame) = []"
    by (auto simp: filter_empty_conv image_iff)
  then show ?thesis
    using assms(1) by (simp add: mapVibeTargets_def explicit_fold)
qed

text \<open>
  Claim C10. When no device of the list resolves a target, \<open>addFrame\<close> returns false and
  the state (the total and every array) is as before: so for an empty device list, and for
  an EXCLUSIVE frame whose targets name no device of the list, whatever the duration and
  the targets are.
\<close>

theorem addFrame_no_target:
  "((\<forall>d \<in> set (devices s). mapVibeTargets frame s (name d) = None) \<longrightarrow>
      addFrame frame s = (False, s)) \<and>
   (devices s = [] \<longrightarrow> addFrame frame s = (False, s)) \<and>
   (mode frame = EXCLUSIVE \<and> device ` set (targets frame) \<inter> name ` set (devices s) = {} \<longrightarrow>
      addFrame frame s = (False, s))"
  using addFrame_none [of s frame] exclusive_unlisted [of frame s]
  by auto

text \<open>
  The devices \<open>A\<close>, \<open>B\<close> and an EXCLUSIVE frame of 500 ms whose only target names \<open>C\<close>;
  and the same frame when no device is listed.
\<close>

theorem addFrame_no_target_witness:
  "addFrame (frame_B\<lparr>targets := [\<lparr>device = ''C'', target_value = 0.25\<rparr>]\<rparr>) state_AB = (False, state_AB) \<and>
   addFrame frame_B init_state = (False, init_state)"
  using addFrame_no_target [of state_AB "frame_B\<lparr>targets := [\<lparr>device = ''C'', target_value = 0.25\<rparr>]\<rparr>"]
    addFrame_no_target [of init_state frame_B]
  by (simp add: frame_B_def state_AB_fields init_fields)

section \<open>Monotonic time\<close>

lemma concat_at_most_one:
  "distinct ys \<Longrightarrow>
   concat (map (\<lambda>dd. if snd dd = a then g (fst dd) else []) (zip xs ys)) = [] \<or>
   (\<exists>d \<in> set xs. concat (map (\<lambda>dd. if snd dd = a then g (fst dd) else []) (zip xs ys)) = g d)"
proof (induction xs arbitrary: ys)
  case Nil
  then show ?case by simp
next
  case (Cons x xs)
  show ?case
  proof (cases ys)
    case Nil
    then show ?thesis by simp
  next
    case (Cons y ys')
    show ?thesis
    proof (cases "y = a")
      case True
      have "\<forall>dd \<in> set (zip xs ys'). snd dd \<noteq> a"
        using Cons.prems Cons True by (auto dest: set_zip_rightD)
      then have "concat (map (\<lambda>dd. if snd dd = a then g (fst dd) else []) (zip xs ys')) = []"
        by (induction "zip xs ys'") auto
      then show ?thesis using Cons True by simp
    next
      case False
      then show ?thesis using Cons.IH [of ys'] Cons.prems Cons by auto
    qed
  qed
qed

lemma ordered_upto_append:
  assumes "ordered_upto t data" and "t \<le> t1" and "t1 \<le> t2" and "t2 \<le> t'"
  shows "ordered_upto t' (data @ [\<lparr>px = t1, py = v\<rparr>, \<lparr>px = t2, py = w\<rparr>])"
  using assms by (fastforce simp: ordered_upto_def sorted_append list_all_iff)

lemma ordered_upto_mono:
  "ordered_upto t data \<Longrightarrow> t \<le> t' \<Longrightarrow> ordered_upto t' data"
  by (fastforce simp: ordered_upto_def list_all_iff)

lemma hold_time_bounds:
  fixes d :: real
  assumes "0 < d"
  shows "t \<le> t + d - min (d * 0.2) STEP_SMOOTHING" and "t + d - min (d * 0.2) STEP_SMOOTHING \<le> t + d"
  using assms by (auto simp: min_def STEP_SMOOTHING_def)

lemma addFrame_timeline_ok:
  assumes ok: "timeline_ok s"
  shows "timeline_ok (snd (addFrame frame s))"
proof (cases "0 < duration frame \<and> fst (addFrame frame s)")
  case False
  then have "snd (addFrame frame s) = s"
    by (auto simp: addFrame_def Let_def)
  then show ?thesis using ok by simp
next
  case True
  then have pos: "0 < duration frame" and ch: "fst (addFrame frame s)" by auto
  have tot: "tTotal (snd (addFrame frame s)) = tTotal s + duration frame"
    using ch by (simp add: addFrame_total)
  have dist: "distinct (datasets s)" using ok by (simp add: timeline_ok_def)
  have "ordered_upto (tTotal s + duration frame) (heap (snd (addFrame frame s)) a)"
    if a: "a \<in> set (datasets s)" for a
  proof -
    let ?g = "\<lambda>d. case mapVibeTargets frame s (name d) of
                None \<Rightarrow> []
              | Some target \<Rightarrow>
                  [\<lparr>px = tTotal s, py = target_value target\<rparr>,
                   \<lparr>px = tTotal s + duration frame - min (duration frame * 0.2) STEP_SMOOTHING,
                    py = target_value target\<rparr>]"
    let ?c = "concat (map (\<lambda>dd. if snd dd = a then ?g (fst dd) else []) (zip (devices s) (datasets s)))"
    have old: "ordered_upto (tTotal s) (heap s a)"
      using ok a by (simp add: timeline_ok_def list_all_iff)
    have h: "heap (snd (addFrame frame s)) a = heap s a @ ?c"
      using addFrame_heap [OF pos, of s a] by simp
    have "?c = [] \<or> (\<exists>d \<in> set (devices s). ?c = ?g d)"
      using concat_at_most_one [OF dist, of a ?g "devices s"] by simp
    then show ?thesis
    proof (elim disjE bexE)
      assume c: "?c = []"
      have "heap (snd (addFrame frame s)) a = heap s a"
        unfolding h c by simp
      then show ?thesis
        using old pos ordered_upto_mono [of "tTotal s" "heap s a" "tTotal s + duration frame"]
        by simp
    next
      fix d :: VibeDevice
      assume c: "?c = ?g d"
      have hd: "heap (snd (addFrame frame s)) a = heap s a @ ?g d"
        unfolding h c by simp
      show ?thesis
      proof (cases "mapVibeTargets frame s (name d)")
        case None
        then show ?thesis
          using hd old pos ordered_upto_mono [of "tTotal s" "heap s a" "tTotal s + duration frame"]
          by simp
      next
        case (Some target)
        then show ?thesis
          using hd ordered_upto_append [OF old _ hold_time_bounds [OF pos, of "tTotal s"]]
          by simp
      qed
    qed
  qed
  then show ?thesis
    using dist tot by (simp add: timeline_ok_def list_all_iff addFrame_fields)
qed

lemma addFrames_timeline_ok:
  "timeline_ok s \<Longrightarrow> timeline_ok (run (map OpAddFrame fs) s)"
  by (induction fs arbitrary: s) (simp_all add: run_def addFrame_timeline_ok)

lemma addFrames_datasets:
  "datasets (run (map OpAddFrame fs) s) = datasets s"
  by (induction fs arbitrary: s) (simp_all add: run_def addFrame_fields)

text \<open>
  Claim C9, as the code has it. From a state in which every dataset has an array of its own
  and every array is empty, after any sequence of \<open>addFrame\<close> calls the times in the
  array of every dataset do not decrease.
\<close>

theorem addFrame_monotonic_time:
  assumes "distinct (datasets s)"
    and "\<forall>a \<in> set (datasets s). heap s a = []"
  shows "\<forall>a \<in> set (datasets s). sorted (map px (heap (run (map OpAddFrame fs) s) a))"
proof -
  have "timeline_ok s"
    using assms by (simp add: timeline_ok_def ordered_upto_def list_all_iff)
  then have "timeline_ok (run (map OpAddFrame fs) s)"
    by (rule addFrames_timeline_ok)
  then show ?thesis
    by (simp add: timeline_ok_def ordered_upto_def list_all_iff addFrames_datasets)
qed

text \<open>
  The device list \<open>[X]\<close> and two frames, of 1000 ms and of 400 ms: the times are
  0, 900, 1000 and 1320.
\<close>

theorem addFrame_monotonic_time_witness:
  "map px (heap (run (map OpAddFrame [frame_1000, frame_1000\<lparr>duration := 400\<rparr>]) state_X) 5) =
     [0, 900, 1000, 1320] \<and>
   sorted (map px (heap (run (map OpAddFrame [frame_1000, frame_1000\<lparr>duration := 400\<rparr>]) state_X) 5))"
  using addFrame_monotonic_time [of state_X "[frame_1000, frame_1000\<lparr>duration := 400\<rparr>]"]
  by (simp add: state_X_fields run_def addFrame_def addFrame_device_def mapVibeTargets_def
      frame_1000_def STEP_SMOOTHING_def)

text \<open>
  The hypothesis that every dataset has an array of its own is needed. When an update of the
  device list repeats a name that already has a dataset, \<open>updateDevices\<close> gives the same
  copy to both datasets, and a frame then pushes its two points twice into that array.
\<close>

lemma shared_array_example:
  "datasets state_XX = [6, 6, 2, 3, 4] \<and>
   map px (heap (snd (addFrame frame_1000 state_XX)) 6) = [0, 900, 0, 900]"
  by (simp add: state_XX_def state_X_fields updateDevices_def Let_def rebuild_def copy_old_def fresh_def
      addFrame_def addFrame_device_def mapVibeTargets_def frame_1000_def STEP_SMOOTHING_def)

section \<open>prune: the visible window\<close>

text \<open>The loop stops at the length of the longest prefix of points before the cutoff.\<close>

lemma prune_scan_from:
  "i \<le> length data \<Longrightarrow>
   prune_scan data cutoff i = i + length (takeWhile (\<lambda>p. px p < cutoff) (drop i data))"
proof (induction data cutoff i rule: prune_scan.induct)
  case (1 data cutoff i)
  show ?case
  proof (cases "i < length data \<and> px (data ! i) < cutoff")
    case True
    then have d: "drop i data = data ! i # drop (Suc i) data"
      by (simp add: Cons_nth_drop_Suc)
    have "prune_scan data cutoff i = prune_scan data cutoff (Suc i)"
      using True by (subst prune_scan.simps) simp
    also have "\<dots> = Suc i + length (takeWhile (\<lambda>p. px p < cutoff) (drop (Suc i) data))"
      using "1.IH" True by simp
    finally show ?thesis using True d by simp
  next
    case False
    then have "prune_scan data cutoff i = i"
      by (subst prune_scan.simps) auto
    moreover have "takeWhile (\<lambda>p. px p < cutoff) (drop i data) = []"
    proof (cases "i < length data")
      case True
      then have "drop i data = data ! i # drop (Suc i) data"
        by (simp add: Cons_nth_drop_Suc)
      then show ?thesis using False True by simp
    next
      case False
      then show ?thesis using "1.prems" by simp
    qed
    ultimately show ?thesis by simp
  qed
qed

lemma prune_scan_takeWhile:
  "prune_scan data cutoff 0 = length (takeWhile (\<lambda>p. px p < cutoff) data)"
  using prune_scan_from [of 0 data cutoff] by simp

lemma drop_to_last: "xs \<noteq> [] \<Longrightarrow> drop (length xs - 1) xs = [last xs]"
  by (induction xs) (auto simp: drop_Cons')

lemma drop_in_prefix:
  "n \<le> length xs \<Longrightarrow> drop n (xs @ ys) = drop n xs @ ys"
  by simp

text \<open>
  What is left of an array: nothing when no point is at or after the cutoff; otherwise the
  last point of the prefix before the cutoff, if there is one, and everything after the
  prefix.
\<close>

lemma prune_data_split:
  assumes "data = tw @ dw"
    and "length (takeWhile (\<lambda>p. px p < cutoff) data) = length tw"
  shows "prune_data cutoff data =
     (if dw = [] then [] else (if tw = [] then [] else [last tw]) @ dw)"
proof (cases "dw = []")
  case True
  then show ?thesis using assms by (simp add: prune_data_def prune_scan_takeWhile)
next
  case False
  then have ne: "length tw \<noteq> length data" using assms(1) by simp
  show ?thesis
  proof (cases "1 < length tw")
    case True
    then have tw: "tw \<noteq> []" by auto
    have "drop (length tw - 1) data = drop (length tw - 1) tw @ dw"
      unfolding assms(1) by (rule drop_in_prefix) simp
    then have "drop (length tw - 1) data = [last tw] @ dw"
      using drop_to_last [OF tw] by simp
    then show ?thesis
      using True False ne tw assms(2)
      by (simp add: prune_data_def prune_scan_takeWhile)
  next
    case small: False
    have "data = (if tw = [] then [] else [last tw]) @ dw"
    proof (cases tw)
      case Nil
      then show ?thesis using assms(1) by simp
    next
      case (Cons t ts)
      then have "ts = []" using small by simp
      then show ?thesis using assms(1) Cons by simp
    qed
    then show ?thesis
      using small False ne assms(2)
      by (simp add: prune_data_def prune_scan_takeWhile)
  qed
qed

lemma prune_data_parts:
  "prune_data cutoff data =
     (if dropWhile (\<lambda>p. px p < cutoff) data = [] then []
      else (if takeWhile (\<lambda>p. px p < cutoff) data = [] then []
            else [last (takeWhile (\<lambda>p. px p < cutoff) data)]) @
           dropWhile (\<lambda>p. px p < cutoff) data)"
  by (rule prune_data_split) simp_all

lemma prune_data_Nil: "prune_data cutoff [] = []"
  by (simp add: prune_data_parts)

lemma prune_data_idem: "prune_data cutoff (prune_data cutoff data) = prune_data cutoff data"
proof (cases "dropWhile (\<lambda>p. px p < cutoff) data = []")
  case True
  then show ?thesis by (simp add: prune_data_parts)
next
  case False
  define tw where "tw = takeWhile (\<lambda>p. px p < cutoff) data"
  define dw where "dw = dropWhile (\<lambda>p. px p < cutoff) data"
  define l where "l = (if tw = [] then [] else [last tw])"
  have dw: "dw \<noteq> []" using False by (simp add: dw_def)
  have r: "prune_data cutoff data = l @ dw"
    using False unfolding l_def tw_def dw_def by (simp only: prune_data_parts if_False)
  have lP: "\<forall>p \<in> set l. px p < cutoff"
  proof (cases "tw = []")
    case True
    then show ?thesis by (simp add: l_def)
  next
    case False
    then have "last tw \<in> set tw" by (rule last_in_set)
    then have "px (last tw) < cutoff"
      unfolding tw_def using set_takeWhileD by fast
    then show ?thesis using False by (simp add: l_def)
  qed
  have dP: "\<not> px (hd dw) < cutoff"
    unfolding dw_def using False by (rule hd_dropWhile)
  have "takeWhile (\<lambda>p. px p < cutoff) dw = []"
    using dP dw by (cases dw) auto
  then have "takeWhile (\<lambda>p. px p < cutoff) (l @ dw) = l"
    using lP by simp
  then have "length (takeWhile (\<lambda>p. px p < cutoff) (l @ dw)) = length l" by simp
  then have "prune_data cutoff (l @ dw) =
      (if dw = [] then [] else (if l = [] then [] else [last l]) @ dw)"
    using prune_data_split [of "l @ dw" l dw cutoff] by blast
  also have "\<dots> = l @ dw" using dw by (simp add: l_def)
  finally show ?thesis unfolding r .
qed

text \<open>One dataset, then all of them: each array of a dataset is replaced by what is left of it.\<close>

lemma prune_dataset_heap:
  "snd (prune_dataset cutoff acc ds) = (snd acc)(ds := prune_data cutoff (snd acc ds))"
  by (auto simp: prune_dataset_def prune_data_def Let_def prune_scan.simps [of "[]"])

lemma drop_changes: "0 < n \<Longrightarrow> xs \<noteq> [] \<Longrightarrow> drop n xs \<noteq> xs"
proof
  assume "0 < n" and "xs \<noteq> []" and "drop n xs = xs"
  then have "length (drop n xs) = length xs" by simp
  then show False using \<open>0 < n\<close> \<open>xs \<noteq> []\<close> by (cases xs) auto
qed

lemma prune_dataset_changed:
  "fst (prune_dataset cutoff acc ds) =
     (fst acc \<or> prune_data cutoff (snd acc ds) \<noteq> snd acc ds)"
proof (cases "snd acc ds = []")
  case True
  then show ?thesis by (simp add: prune_dataset_def prune_data_Nil)
next
  case False
  then show ?thesis
    by (simp add: prune_dataset_def prune_data_def Let_def drop_changes)
qed

lemma prune_fold_heap:
  "snd (foldl (prune_dataset cutoff) acc dss) a =
     (if a \<in> set dss then prune_data cutoff (snd acc a) else snd acc a)"
proof (induction dss arbitrary: acc)
  case Nil
  then show ?case by simp
next
  case (Cons ds dss)
  show ?case
    by (simp add: Cons.IH prune_dataset_heap prune_data_idem)
qed


lemma prune_fold_changed:
  "fst (foldl (prune_dataset cutoff) acc dss) =
     (fst acc \<or> (\<exists>a \<in> set dss. prune_data cutoff (snd acc a) \<noteq> snd acc a))"
proof (induction dss arbitrary: acc)
  case Nil
  then show ?case by simp
next
  case (Cons ds dss)
  have "(\<exists>a \<in> set dss. prune_data cutoff (snd (prune_dataset cutoff acc ds) a) \<noteq> snd (prune_dataset cutoff acc ds) a) \<or>
          prune_data cutoff (snd acc ds) \<noteq> snd acc ds
        \<longleftrightarrow> (\<exists>a \<in> set (ds # dss). prune_data cutoff (snd acc a) \<noteq> snd acc a)"
    by (auto simp: prune_dataset_heap prune_data_idem)
  then show ?case
    by (auto simp: Cons.IH prune_dataset_changed)
qed

lemma prune_fields:
  "devices (snd (prune s)) = devices s"
  "datasets (snd (prune s)) = datasets s"
  "tFrameBegin (snd (prune s)) = tFrameBegin s"
  "tFrameEnd (snd (prune s)) = tFrameEnd s"
  "tNow (snd (prune s)) = tNow s"
  "tTotal (snd (prune s)) = tTotal s"
  "redraws (snd (prune s)) = redraws s"
  by (simp_all add: prune_def Let_def)

text \<open>Pruning again at the same time changes nothing.\<close>

lemma prune_twice: "fst (prune (snd (prune s))) = False"
  by (simp add: prune_def Let_def prune_fold_changed prune_fold_heap prune_data_idem)






text \<open>
  The device list \<open>[X]\<close> after three frames of 1000 ms and with \<open>now\<close> at 6500: the points
  at 0 and 900 go, the point at 1000 stays as the one point before the bound 1500.
\<close>

lemma state_played_fields:
  "datasets state_played = [5, 1, 2, 3, 4]"
  "heap state_played 5 =
     [\<lparr>px = 0, py = 1\<rparr>, \<lparr>px = 900, py = 1\<rparr>, \<lparr>px = 1000, py = 1\<rparr>,
      \<lparr>px = 1900, py = 1\<rparr>, \<lparr>px = 2000, py = 1\<rparr>, \<lparr>px = 2900, py = 1\<rparr>]"
  "tNow state_played = 6500" "tFrameBegin state_played = 6500" "tFrameEnd state_played = 7500"
  "tTotal state_played = 3000" "redraws state_played = 0" "tUpdatedAt state_played = 0"
  by (simp_all add: state_played_def run_def state_X_fields addFrame_def addFrame_device_def
      mapVibeTargets_def frame_1000_def STEP_SMOOTHING_def advance_def)

section \<open>The playback clock\<close>

text \<open>
  \<open>frameBegin \<le> now \<le> frameEnd\<close> is kept by every function that writes the clock, and
  the other functions do not write it.
\<close>

lemma advance_clock: "clock_bound s \<Longrightarrow> clock_bound (snd (advance amount s))"
  by (simp add: clock_bound_def advance_def)

lemma addFrame_clock: "clock_bound (snd (addFrame frame s)) = clock_bound s"
  by (simp add: clock_bound_def addFrame_fields)

lemma prune_clock: "clock_bound (snd (prune s)) = clock_bound s"
  by (simp add: clock_bound_def prune_fields)

lemma update_clock: "clock_bound s \<Longrightarrow> clock_bound (snd (update adv t s))"
  by (auto simp: update_def Let_def clock_bound_def prune_fields)

lemma resetGroup_clock: "clock_bound (snd (resetGroup s))"
  by (simp add: resetGroup_def Let_def clock_bound_def)

lemma addFrames_clock:
  "clock_bound (snd acc) \<Longrightarrow>
   clock_bound (snd (foldl (\<lambda>acc frame. (fst (addFrame frame (snd acc)) \<or> fst acc, snd (addFrame frame (snd acc))))
      acc fs))"
  by (induction fs arbitrary: acc) (simp_all add: Let_def addFrame_clock)

lemma setGroup_clock: "clock_bound (snd (setGroup grp s))"
proof -
  have "clock_bound ((snd (resetGroup s))\<lparr>username := group_username grp\<rparr>)"
    using resetGroup_clock [of s] by (simp add: clock_bound_def)
  then show ?thesis
    by (simp add: setGroup_def Let_def addFrames_clock)
qed

lemma updateDevices_clock: "clock_bound (snd (updateDevices ds s)) = clock_bound s"
  by (simp add: updateDevices_def Let_def clock_bound_def)

lemma updateLoop_clock: "clock_bound s \<Longrightarrow> clock_bound (updateLoop t s)"
proof (cases "isEmpty s")
  case True
  then show ?thesis by (simp add: updateLoop_def resetGroup_clock)
next
  case False
  assume "clock_bound s"
  then have "clock_bound (snd (update True t s))" by (rule update_clock)
  then show ?thesis using False by (simp add: updateLoop_def clock_bound_def)
qed

lemma startUpdateLoop_clock: "clock_bound s \<Longrightarrow> clock_bound (startUpdateLoop t s)"
  by (simp add: startUpdateLoop_def updateLoop_clock)

lemma onmessage_clock:
  assumes "clock_bound s"
  shows "clock_bound (onmessage m t1 t2 s)"
proof -
  define r where "r = (case m of
                 Ping \<Rightarrow> (False, s)
               | UpdateConfig c \<Rightarrow> (False, s\<lparr>config := c\<rparr>)
               | UpdateDevices ds \<Rightarrow> updateDevices ds s
               | ResetGroup \<Rightarrow> (False, snd (resetGroup s))
               | SetGroup g \<Rightarrow> (let a = setGroup g s in (fst a, startUpdateLoop t1 (snd a)))
               | AddFrame f \<Rightarrow> (let a = addFrame f s in (fst a, startUpdateLoop t1 (snd a)))
               | Advance amount \<Rightarrow> advance amount s
               | Unknown _ \<Rightarrow> (False, s))"
  have "clock_bound (snd r)"
  proof (cases m)
    case (UpdateConfig c)
    then show ?thesis using assms by (simp add: r_def clock_bound_def)
  next
    case (SetGroup g)
    then show ?thesis
      by (simp add: r_def Let_def startUpdateLoop_clock setGroup_clock)
  next
    case (AddFrame f)
    then show ?thesis using assms
      by (simp add: r_def Let_def startUpdateLoop_clock addFrame_clock)
  qed (use assms in \<open>simp_all add: r_def updateDevices_clock resetGroup_clock advance_clock\<close>)
  then have "clock_bound (if fst r then snd (update False t2 (snd r)) else snd r)"
    by (simp add: update_clock)
  moreover have "onmessage m t1 t2 s = (if fst r then snd (update False t2 (snd r)) else snd r)"
    by (simp add: onmessage_def r_def Let_def)
  ultimately show ?thesis by simp
qed

lemma apply_op_clock: "clock_bound s \<Longrightarrow> clock_bound (apply_op s x)"
  by (cases x)
    (simp_all add: advance_clock update_clock addFrame_clock setGroup_clock resetGroup_clock
      updateDevices_clock prune_clock updateLoop_clock onmessage_clock)

lemma run_clock: "clock_bound s \<Longrightarrow> clock_bound (run ops s)"
  by (induction ops arbitrary: s) (simp_all add: run_def apply_op_clock)

text \<open>
  Claim C1, as the code has it. In every state reached from the initial state by any
  sequence of operations (advance, update, addFrame, setGroup, resetGroup, updateDevices,
  prune, an animation frame, a message), \<open>frameBegin \<le> now \<le> frameEnd\<close>. Nothing
  relates \<open>frameEnd\<close> to \<open>total\<close>.
\<close>

theorem clock_bound_reachable: "clock_bound (run ops init_state)"
  by (rule run_clock) (simp add: clock_bound_def init_fields)

text \<open>
  The first advance already puts \<open>frameEnd\<close> after \<open>total\<close>: no frame was added, so
  \<open>total\<close> is 0, and \<open>frameEnd\<close> is the amount.
\<close>

theorem frameEnd_exceeds_total:
  "tFrameEnd (run [OpAdvance 100] init_state) = 100 \<and>
   tTotal (run [OpAdvance 100] init_state) = 0 \<and>
   \<not> (tFrameEnd (run [OpAdvance 100] init_state) \<le> tTotal (run [OpAdvance 100] init_state))"
  by (simp add: run_def advance_def init_fields)

text \<open>The same after a frame of one second and an advance of two.\<close>

lemma frameEnd_exceeds_total_after_frame:
  "tFrameEnd (run [OpAddFrame frame_1000, OpAdvance 2000] state_X) = 2000 \<and>
   tTotal (run [OpAddFrame frame_1000, OpAdvance 2000] state_X) = 1000"
  by (simp add: run_def advance_def state_X_fields addFrame_def addFrame_device_def
      mapVibeTargets_def frame_1000_def)

section \<open>resetGroup\<close>

lemma clear_fold:
  "foldl (\<lambda>h ds. h(ds := [])) h dss a = (if a \<in> set dss then [] else h a)"
  by (induction dss arbitrary: h) auto

lemma resetGroup_fields:
  "tFrameBegin (snd (resetGroup s)) = 0" "tFrameEnd (snd (resetGroup s)) = 0"
  "tNow (snd (resetGroup s)) = 0" "tTotal (snd (resetGroup s)) = 0"
  "username (snd (resetGroup s)) = []"
  "devices (snd (resetGroup s)) = devices s" "datasets (snd (resetGroup s)) = datasets s"
  "redraws (snd (resetGroup s)) = redraws s"
  by (simp_all add: resetGroup_def Let_def)

lemma resetGroup_changed: "fst (resetGroup s) = (\<not> isEmpty s)"
  by (simp add: resetGroup_def Let_def isEmpty_def getLength_def split: list.splits)

lemma resetGroup_heap:
  "heap (snd (resetGroup s)) a = (if \<not> isEmpty s \<and> a \<in> set (datasets s) then [] else heap s a)"
  by (simp add: resetGroup_def Let_def isEmpty_def getLength_def clear_fold split: list.splits)

text \<open>
  Claim C8, as the code has it. \<open>resetGroup\<close> sets the four clock fields to zero. When
  the array of the first dataset is not empty it empties the array of every dataset and
  returns true. When every array is empty it returns false and the arrays stay empty,
  whatever the clock fields were.
\<close>

theorem resetGroup_effect:
  "tFrameBegin (snd (resetGroup s)) = 0 \<and> tFrameEnd (snd (resetGroup s)) = 0 \<and>
   tNow (snd (resetGroup s)) = 0 \<and> tTotal (snd (resetGroup s)) = 0 \<and>
   (\<not> isEmpty s \<longrightarrow>
      fst (resetGroup s) \<and> (\<forall>a \<in> set (datasets s). heap (snd (resetGroup s)) a = [])) \<and>
   ((\<forall>a \<in> set (datasets s). heap s a = []) \<longrightarrow>
      \<not> fst (resetGroup s) \<and> heap (snd (resetGroup s)) = heap s)"
proof -
  have "isEmpty s" if "\<forall>a \<in> set (datasets s). heap s a = []"
    using that by (cases "datasets s") (simp_all add: isEmpty_def getLength_def)
  then show ?thesis
    by (auto simp: resetGroup_fields resetGroup_changed resetGroup_heap)
qed

text \<open>
  The device list \<open>[X]\<close> after three frames and two advances: the reset returns true,
  the array is emptied and the clock is at zero; a second reset returns false.
\<close>

theorem resetGroup_effect_witness:
  "heap state_played 5 \<noteq> [] \<and> tFrameEnd state_played = 7500 \<and>
   fst (resetGroup state_played) \<and>
   heap (snd (resetGroup state_played)) 5 = [] \<and>
   tFrameEnd (snd (resetGroup state_played)) = 0 \<and>
   tTotal (snd (resetGroup state_played)) = 0 \<and>
   \<not> fst (resetGroup (snd (resetGroup state_played)))"
  using resetGroup_effect [of state_played] resetGroup_effect [of "snd (resetGroup state_played)"]
  by (simp add: state_played_fields isEmpty_def getLength_def resetGroup_heap resetGroup_fields)

text \<open>
  After an advance and no frame the clock fields are not zero and every array is empty:
  the reset zeroes the clock and returns false.
\<close>

theorem resetGroup_false_with_clock_set:
  "tFrameEnd (snd (advance 100 state_X)) = 100 \<and>
   tFrameEnd (snd (resetGroup (snd (advance 100 state_X)))) = 0 \<and>
   \<not> fst (resetGroup (snd (advance 100 state_X)))"
  by (simp add: resetGroup_fields resetGroup_changed isEmpty_def getLength_def advance_def
      state_X_fields)

text \<open>
  \<open>isEmpty\<close> looks at the first dataset only. With the devices \<open>A\<close>, \<open>B\<close> and an
  EXCLUSIVE frame for \<open>B\<close>, the first array is empty and the second is not: the reset
  zeroes the clock, returns false and leaves the two points of \<open>B\<close>; the next frame for
  \<open>B\<close> then starts again at time 0, after the point at 400.
\<close>

lemma resetGroup_first_dataset_only:
  "map px (heap (snd (addFrame frame_B state_AB)) 6) = [0, 400] \<and>
   \<not> fst (resetGroup (snd (addFrame frame_B state_AB))) \<and>
   map px (heap (snd (resetGroup (snd (addFrame frame_B state_AB)))) 6) = [0, 400] \<and>
   tTotal (snd (resetGroup (snd (addFrame frame_B state_AB)))) = 0 \<and>
   map px (heap (snd (addFrame frame_B (snd (resetGroup (snd (addFrame frame_B state_AB)))))) 6) =
     [0, 400, 0, 400]"
  by (simp add: resetGroup_def Let_def isEmpty_def getLength_def addFrame_def addFrame_device_def
      mapVibeTargets_def frame_B_def state_AB_fields STEP_SMOOTHING_def)

section \<open>Event dispatch and redraws\<close>

text \<open>
  \<open>update\<close> calls \<open>chart.update()\<close> only when the clock moved or \<open>prune\<close> removed a
  point; with \<open>advance = false\<close> only when \<open>prune\<close> removed a point.
\<close>

lemma update_redraws:
  "redraws (snd (update adv t s)) =
     (if fst (update adv t s) then Suc (redraws s) else redraws s)"
  by (simp add: update_def Let_def prune_fields)

lemma update_false_changed:
  "fst (update False t s) = (0 < t - tUpdatedAt s \<and> fst (prune (s\<lparr>tUpdatedAt := t\<rparr>)))"
  by (simp add: update_def Let_def not_le)

lemma onmessage_reset_group:
  "onmessage ResetGroup t1 t2 s = snd (resetGroup s)"
  by (simp add: onmessage_def)

text \<open>
  Claim C2 does not hold of the handler. For a reset-group message the result of
  \<open>resetGroup\<close> is dropped: with the device list \<open>[X]\<close> and three frames in the chart,
  \<open>resetGroup\<close> returns true and empties the array, and the handler does not redraw.
\<close>

theorem reset_group_message_no_redraw:
  "heap state_played 5 \<noteq> [] \<and>
   fst (resetGroup state_played) \<and>
   heap (onmessage ResetGroup 16 17 state_played) 5 = [] \<and>
   redraws (onmessage ResetGroup 16 17 state_played) = redraws state_played"
  by (simp add: onmessage_reset_group resetGroup_changed resetGroup_heap resetGroup_fields
      isEmpty_def getLength_def state_played_fields)

text \<open>
  For the other messages the handler calls \<open>update(false)\<close>, which redraws only when
  \<open>prune\<close> removed a point. The first frame for the device list \<open>[X]\<close>, and the update
  of the device list itself, change the state and report it, and nothing is redrawn.
\<close>

lemma add_frame_message_no_redraw:
  "fst (addFrame frame_1000 state_X) \<and>
   map px (heap (onmessage (AddFrame frame_1000) 16 17 state_X) 5) = [0, 900] \<and>
   redraws (onmessage (AddFrame frame_1000) 16 17 state_X) = 0"
  by (simp add: onmessage_def Let_def startUpdateLoop_def updateLoop_def isEmpty_def getLength_def
      update_def prune_def prune_dataset_def prune_scan.simps [of _ _ 0]
      prune_scan.simps [of _ _ "Suc 0"] addFrame_def addFrame_device_def
      mapVibeTargets_def frame_1000_def state_X_fields STEP_SMOOTHING_def VISIBLE_PAST_def
      VISIBLE_FUTURE_def)

lemma update_devices_message_no_redraw:
  "fst (updateDevices [\<lparr>name = ''X''\<rparr>] init_state) \<and>
   redraws (onmessage (UpdateDevices [\<lparr>name = ''X''\<rparr>]) 16 17 init_state) = 0"
  by (simp add: onmessage_def Let_def update_def prune_def prune_dataset_def
      updateDevices_def rebuild_def copy_old_def fresh_def init_datasets init_fields)

section \<open>updateDevices\<close>

lemma foldr_max_ge: "a \<in> set xs \<Longrightarrow> a \<le> foldr max xs (0::nat)"
  by (induction xs) auto

lemma fresh_above: "a \<in> set (datasets s) \<Longrightarrow> a < fresh s"
  using foldr_max_ge [of a "datasets s"] by (simp add: fresh_def)

lemma same_names:
  "(length xs = length ys \<and> list_all2 (\<lambda>d u. name d = name u) xs ys) = (map name ys = map name xs)"
proof (induction xs arbitrary: ys)
  case Nil
  then show ?case by auto
next
  case (Cons x xs)
  then show ?case by (cases ys) auto
qed

text \<open>
  The first loop: every old array is copied to a new address, the old arrays are not
  touched, and the map gives for a name the copy of the array of the last device of that
  name.
\<close>

lemma copy_old_fold:
  assumes "\<forall>dd \<in> set dds. snd dd < n"
  shows "snd (snd (foldl copy_old (m, h, n) dds)) = n + length dds \<and>
         (\<forall>a < n. fst (snd (foldl copy_old (m, h, n) dds)) a = h a) \<and>
         (case map_of (rev (map (\<lambda>dd. (name (fst dd), snd dd)) dds)) x of
            None \<Rightarrow> fst (foldl copy_old (m, h, n) dds) x = m x
          | Some b \<Rightarrow> (\<exists>a. fst (foldl copy_old (m, h, n) dds) x = Some a \<and> n \<le> a \<and>
                          a < n + length dds \<and>
                          fst (snd (foldl copy_old (m, h, n) dds)) a = h b))"
  using assms
proof (induction dds arbitrary: m h n)
  case Nil
  then show ?case by simp
next
  case (Cons dd dds)
  let ?m = "m(name (fst dd) \<mapsto> n)" and ?h = "h(n := h (snd dd))"
  let ?r = "foldl copy_old (?m, ?h, Suc n) dds"
  have step: "foldl copy_old (m, h, n) (dd # dds) = ?r"
    by (simp add: copy_old_def)
  have below: "\<forall>dd' \<in> set dds. snd dd' < Suc n"
    using Cons.prems by auto
  note IH = Cons.IH [OF below, of ?m ?h]
  have len': "snd (snd ?r) = Suc n + length dds"
    using IH by blast
  then have len: "snd (snd ?r) = n + length (dd # dds)"
    by simp
  have keep: "\<forall>a < Suc n. fst (snd ?r) a = ?h a"
    using IH by blast
  have IH3: "case map_of (rev (map (\<lambda>dd. (name (fst dd), snd dd)) dds)) x of
            None \<Rightarrow> fst ?r x = ?m x
          | Some b \<Rightarrow> (\<exists>a. fst ?r x = Some a \<and> Suc n \<le> a \<and> a < Suc n + length dds \<and>
                          fst (snd ?r) a = ?h b)"
    using IH by blast
  have old: "\<forall>a < n. fst (snd ?r) a = h a"
  proof (intro allI impI)
    fix a
    assume "a < n"
    then have "a < Suc n" and "a \<noteq> n" by simp_all
    then show "fst (snd ?r) a = h a" using keep by simp
  qed
  let ?rest = "map_of (rev (map (\<lambda>dd. (name (fst dd), snd dd)) dds)) x"
  have lookup: "map_of (rev (map (\<lambda>dd. (name (fst dd), snd dd)) (dd # dds))) x =
      (case ?rest of None \<Rightarrow> (if x = name (fst dd) then Some (snd dd) else None) | Some b \<Rightarrow> Some b)"
    by (simp add: map_add_def split: option.splits)
  have third: "case map_of (rev (map (\<lambda>dd. (name (fst dd), snd dd)) (dd # dds))) x of
            None \<Rightarrow> fst ?r x = m x
          | Some b \<Rightarrow> (\<exists>a. fst ?r x = Some a \<and> n \<le> a \<and> a < n + length (dd # dds) \<and>
                          fst (snd ?r) a = h b)"
  proof (cases ?rest)
    case None
    then have same: "fst ?r x = ?m x" using IH3 by simp
    show ?thesis
    proof (cases "x = name (fst dd)")
      case True
      have "fst (snd ?r) n = h (snd dd)" using keep by simp
      then show ?thesis unfolding lookup using None True same by simp
    next
      case False
      then show ?thesis unfolding lookup using None same by simp
    qed
  next
    case (Some b)
    then obtain a where a: "fst ?r x = Some a" "Suc n \<le> a" "a < Suc n + length dds"
      "fst (snd ?r) a = ?h b"
      using IH3 by auto
    have "(x, b) \<in> set (rev (map (\<lambda>dd. (name (fst dd), snd dd)) dds))"
      using Some by (rule map_of_SomeD)
    then have "b < n" using Cons.prems by auto
    then have "?h b = h b" by simp
    then show ?thesis unfolding lookup using Some a by simp
  qed
  show ?case
    unfolding step using len old third by blast
qed

text \<open>
  The second loop: the dataset of every device of the new list gets the copy for the
  device's name, or a new empty array; the arrays below the counter are not touched.
\<close>

lemma rebuild_fold:
  assumes "\<forall>x a. m x = Some a \<longrightarrow> a < n"
  shows "\<exists>new. fst (foldl (rebuild m) (refs, h, n) ds) = refs @ new \<and>
           list_all2 (\<lambda>d ref.
               (case m (name d) of Some a \<Rightarrow> ref = a | None \<Rightarrow> n \<le> ref) \<and>
               fst (snd (foldl (rebuild m) (refs, h, n) ds)) ref =
                 (case m (name d) of Some a \<Rightarrow> h a | None \<Rightarrow> [])) ds new \<and>
           (\<forall>a < n. fst (snd (foldl (rebuild m) (refs, h, n) ds)) a = h a)"
  using assms
proof (induction ds arbitrary: refs h n)
  case Nil
  then show ?case by simp
next
  case (Cons d ds)
  show ?case
  proof (cases "m (name d)")
    case (Some a)
    let ?r = "foldl (rebuild m) (refs @ [a], h, n) ds"
    have step: "foldl (rebuild m) (refs, h, n) (d # ds) = ?r"
      using Some by (simp add: rebuild_def)
    from Cons.IH [OF Cons.prems, of "refs @ [a]" h]
    obtain new where new: "fst ?r = (refs @ [a]) @ new"
      and all: "list_all2 (\<lambda>d ref.
               (case m (name d) of Some a \<Rightarrow> ref = a | None \<Rightarrow> n \<le> ref) \<and>
               fst (snd ?r) ref = (case m (name d) of Some a \<Rightarrow> h a | None \<Rightarrow> [])) ds new"
      and keep: "\<forall>a < n. fst (snd ?r) a = h a"
      by blast
    have "a < n" using Cons.prems Some by blast
    then have "fst (snd ?r) a = h a" using keep by blast
    then have "list_all2 (\<lambda>d ref.
               (case m (name d) of Some a \<Rightarrow> ref = a | None \<Rightarrow> n \<le> ref) \<and>
               fst (snd ?r) ref = (case m (name d) of Some a \<Rightarrow> h a | None \<Rightarrow> [])) (d # ds) (a # new)"
      using all Some by simp
    moreover have "fst ?r = refs @ (a # new)" using new by simp
    ultimately show ?thesis unfolding step using keep by blast
  next
    case None
    let ?h = "h(n := [])"
    let ?r = "foldl (rebuild m) (refs @ [n], ?h, Suc n) ds"
    have step: "foldl (rebuild m) (refs, h, n) (d # ds) = ?r"
      using None by (simp add: rebuild_def)
    have below: "\<forall>x a. m x = Some a \<longrightarrow> a < Suc n"
      using Cons.prems by (meson less_Suc_eq)
    from Cons.IH [OF below, of "refs @ [n]" ?h]
    obtain new where new: "fst ?r = (refs @ [n]) @ new"
      and all: "list_all2 (\<lambda>d ref.
               (case m (name d) of Some a \<Rightarrow> ref = a | None \<Rightarrow> Suc n \<le> ref) \<and>
               fst (snd ?r) ref = (case m (name d) of Some a \<Rightarrow> ?h a | None \<Rightarrow> [])) ds new"
      and keep: "\<forall>a < Suc n. fst (snd ?r) a = ?h a"
      by blast
    have weaker: "(case m (name d') of Some a \<Rightarrow> ref = a | None \<Rightarrow> n \<le> ref) \<and>
               fst (snd ?r) ref = (case m (name d') of Some a \<Rightarrow> h a | None \<Rightarrow> [])"
      if "(case m (name d') of Some a \<Rightarrow> ref = a | None \<Rightarrow> Suc n \<le> ref) \<and>
               fst (snd ?r) ref = (case m (name d') of Some a \<Rightarrow> ?h a | None \<Rightarrow> [])"
      for d' :: VibeDevice and ref
    proof (cases "m (name d')")
      case None
      then show ?thesis using that by simp
    next
      case (Some a)
      then have "a < n" using Cons.prems by blast
      then have "a \<noteq> n" by simp
      then show ?thesis using that Some by auto
    qed
    have all': "list_all2 (\<lambda>d ref.
               (case m (name d) of Some a \<Rightarrow> ref = a | None \<Rightarrow> n \<le> ref) \<and>
               fst (snd ?r) ref = (case m (name d) of Some a \<Rightarrow> h a | None \<Rightarrow> [])) ds new"
      using all weaker by (rule list_all2_mono)
    have "fst (snd ?r) n = []" using keep by simp
    then have "list_all2 (\<lambda>d ref.
               (case m (name d) of Some a \<Rightarrow> ref = a | None \<Rightarrow> n \<le> ref) \<and>
               fst (snd ?r) ref = (case m (name d) of Some a \<Rightarrow> h a | None \<Rightarrow> [])) (d # ds) (n # new)"
      using all' None by simp
    moreover have "fst ?r = refs @ (n # new)" using new by simp
    moreover have "\<forall>a < n. fst (snd ?r) a = h a"
    proof (intro allI impI)
      fix a
      assume "a < n"
      then have "a < Suc n" and "a \<noteq> n" by simp_all
      then show "fst (snd ?r) a = h a" using keep by simp
    qed
    ultimately show ?thesis unfolding step by blast
  qed
qed

text \<open>
  The whole function, when the list of names changes. \<open>new\<close> are the addresses the
  datasets of the devices now hold; the datasets after them keep their arrays, emptied.
\<close>

lemma updateDevices_changed:
  "fst (updateDevices updatedDevices s) = (map name updatedDevices \<noteq> map name (devices s))"
  unfolding updateDevices_def same_names by (simp add: Let_def)

lemma updateDevices_same:
  "map name updatedDevices = map name (devices s) \<Longrightarrow> updateDevices updatedDevices s = (False, s)"
  unfolding updateDevices_def same_names by (simp add: Let_def)

lemma updateDevices_devices:
  "map name updatedDevices \<noteq> map name (devices s) \<Longrightarrow>
   devices (snd (updateDevices updatedDevices s)) = take (length (datasets s)) updatedDevices"
  unfolding updateDevices_def same_names by (simp add: Let_def)

lemma updateDevices_slots:
  assumes diff: "map name updatedDevices \<noteq> map name (devices s)"
  shows "\<exists>new. datasets (snd (updateDevices updatedDevices s)) =
                 new @ drop (length new) (datasets s) \<and>
               length new = min (length updatedDevices) (length (datasets s)) \<and>
               (\<forall>i < length new.
                  fresh s \<le> new ! i \<and>
                  heap (snd (updateDevices updatedDevices s)) (new ! i) =
                    (case map_of (rev (zip (map name (devices s)) (datasets s)))
                            (name (updatedDevices ! i)) of
                       Some b \<Rightarrow> heap s b
                     | None \<Rightarrow> [])) \<and>
               (\<forall>a \<in> set (drop (length new) (datasets s)).
                  heap (snd (updateDevices updatedDevices s)) a = [])"
proof -
  define dds where "dds = zip (devices s) (datasets s)"
  define old where "old = foldl copy_old (Map.empty, heap s, fresh s) dds"
  define m where "m = fst old"
  define h1 where "h1 = fst (snd old)"
  define n1 where "n1 = snd (snd old)"
  define devs where "devs = take (length (datasets s)) updatedDevices"
  define r where "r = foldl (rebuild m) ([], h1, n1) devs"
  define h2 where "h2 = fst (snd r)"
  define leftover where "leftover = drop (length devs) (datasets s)"
  define h3 where "h3 = foldl (\<lambda>h ds. h(ds := [])) h2 leftover"
  have old_eq: "old = (m, h1, n1)" by (simp add: m_def h1_def n1_def)
  have result: "snd (updateDevices updatedDevices s) =
      s\<lparr>devices := devs, datasets := fst r @ leftover, heap := h3\<rparr>"
    unfolding updateDevices_def same_names using diff
    by (simp add: Let_def h3_def leftover_def h2_def r_def devs_def m_def h1_def n1_def old_def dds_def)
  have below: "\<forall>dd \<in> set dds. snd dd < fresh s"
    unfolding dds_def by (auto dest!: set_zip_rightD intro: fresh_above)
  have names: "map (\<lambda>dd. (name (fst dd), snd dd)) dds = zip (map name (devices s)) (datasets s)"
    unfolding dds_def by (simp add: zip_map1 case_prod_beta)
  have n1: "n1 = fresh s + length dds"
    using copy_old_fold [OF below, of Map.empty "heap s"] by (simp add: n1_def old_def)
  have h1_old: "\<forall>a < fresh s. h1 a = heap s a"
    using copy_old_fold [OF below, of Map.empty "heap s"] by (simp add: h1_def old_def)
  have lookup: "case map_of (rev (zip (map name (devices s)) (datasets s))) x of
            None \<Rightarrow> m x = None
          | Some b \<Rightarrow> (\<exists>a. m x = Some a \<and> fresh s \<le> a \<and> a < n1 \<and> h1 a = heap s b)" for x
    using copy_old_fold [OF below, of Map.empty "heap s" x]
    unfolding names n1 m_def h1_def old_def by simp
  have m_below: "\<forall>x a. m x = Some a \<longrightarrow> a < n1"
  proof (intro allI impI)
    fix x a
    assume "m x = Some a"
    then show "a < n1" using lookup [of x]
      by (cases "map_of (rev (zip (map name (devices s)) (datasets s))) x") auto
  qed
  have fresh_n1: "fresh s \<le> n1" using n1 by simp
  from rebuild_fold [OF m_below, of "[]" h1 devs]
  obtain new where new: "fst r = new"
    and all: "list_all2 (\<lambda>d ref.
               (case m (name d) of Some a \<Rightarrow> ref = a | None \<Rightarrow> n1 \<le> ref) \<and>
               h2 ref = (case m (name d) of Some a \<Rightarrow> h1 a | None \<Rightarrow> [])) devs new"
    unfolding r_def h2_def by auto
  have len: "length new = length devs"
    using all by (simp add: list_all2_lengthD)
  have len_min: "length new = min (length updatedDevices) (length (datasets s))"
    using len by (simp add: devs_def min.commute)
  have h3: "h3 a = (if a \<in> set leftover then [] else h2 a)" for a
    by (simp add: h3_def clear_fold)
  have slot: "fresh s \<le> new ! i \<and>
      h3 (new ! i) = (case map_of (rev (zip (map name (devices s)) (datasets s)))
                            (name (updatedDevices ! i)) of
                       Some b \<Rightarrow> heap s b
                     | None \<Rightarrow> [])" if i: "i < length new" for i
  proof -
    have di: "devs ! i = updatedDevices ! i"
      using i len by (simp add: devs_def)
    have P: "(case m (name (devs ! i)) of Some a \<Rightarrow> new ! i = a | None \<Rightarrow> n1 \<le> new ! i) \<and>
               h2 (new ! i) = (case m (name (devs ! i)) of Some a \<Rightarrow> h1 a | None \<Rightarrow> [])"
      using list_all2_nthD [OF all, of i] i len by simp
    have fr: "fresh s \<le> new ! i \<and>
        h2 (new ! i) = (case map_of (rev (zip (map name (devices s)) (datasets s)))
                            (name (devs ! i)) of
                       Some b \<Rightarrow> heap s b
                     | None \<Rightarrow> [])"
    proof (cases "map_of (rev (zip (map name (devices s)) (datasets s))) (name (devs ! i))")
      case None
      then have "m (name (devs ! i)) = None" using lookup [of "name (devs ! i)"] by simp
      then show ?thesis using P None fresh_n1 by simp
    next
      case (Some b)
      then obtain a where "m (name (devs ! i)) = Some a" "fresh s \<le> a" "h1 a = heap s b"
        using lookup [of "name (devs ! i)"] by auto
      then show ?thesis using P Some by auto
    qed
    have "new ! i \<notin> set leftover"
    proof
      assume "new ! i \<in> set leftover"
      then have "new ! i \<in> set (datasets s)"
        unfolding leftover_def by (rule in_set_dropD)
      then have "new ! i < fresh s" by (rule fresh_above)
      then show False using fr by simp
    qed
    then show ?thesis using fr h3 [of "new ! i"] di by simp
  qed
  have "datasets (snd (updateDevices updatedDevices s)) = new @ drop (length new) (datasets s)"
    using result new len by (simp add: leftover_def)
  moreover have "\<forall>a \<in> set (drop (length new) (datasets s)).
                  heap (snd (updateDevices updatedDevices s)) a = []"
    using result h3 len by (simp add: leftover_def)
  moreover have "\<forall>i < length new.
                  fresh s \<le> new ! i \<and>
                  heap (snd (updateDevices updatedDevices s)) (new ! i) =
                    (case map_of (rev (zip (map name (devices s)) (datasets s)))
                            (name (updatedDevices ! i)) of
                       Some b \<Rightarrow> heap s b
                     | None \<Rightarrow> [])"
    using slot result by simp
  ultimately show ?thesis using len_min by blast
qed

text \<open>
  Claim C6. \<open>updateDevices\<close> returns false exactly when the new list has the names of the
  current list in the same order, and then changes nothing. Otherwise it returns true; the
  device list is the new list cut to the number of datasets; the dataset of the device at
  index \<open>i\<close> holds the data that the last device of that name had before, or nothing when
  no device had that name; and every dataset after the devices is empty.
\<close>

theorem updateDevices_effect:
  "fst (updateDevices updatedDevices s) = (map name updatedDevices \<noteq> map name (devices s)) \<and>
   (map name updatedDevices = map name (devices s) \<longrightarrow>
      updateDevices updatedDevices s = (False, s)) \<and>
   (map name updatedDevices \<noteq> map name (devices s) \<longrightarrow>
      devices (snd (updateDevices updatedDevices s)) = take (length (datasets s)) updatedDevices \<and>
      length (devices (snd (updateDevices updatedDevices s))) =
        min (length updatedDevices) (length (datasets s)) \<and>
      length (datasets (snd (updateDevices updatedDevices s))) = length (datasets s) \<and>
      (\<forall>i < length (devices (snd (updateDevices updatedDevices s))).
         heap (snd (updateDevices updatedDevices s))
              (datasets (snd (updateDevices updatedDevices s)) ! i) =
           (case map_of (rev (zip (map name (devices s)) (datasets s)))
                   (name (devices (snd (updateDevices updatedDevices s)) ! i)) of
              Some b \<Rightarrow> heap s b
            | None \<Rightarrow> [])) \<and>
      (\<forall>i. length (devices (snd (updateDevices updatedDevices s))) \<le> i \<and> i < length (datasets s) \<longrightarrow>
         heap (snd (updateDevices updatedDevices s))
              (datasets (snd (updateDevices updatedDevices s)) ! i) = []))"
proof (cases "map name updatedDevices = map name (devices s)")
  case True
  then show ?thesis
    by (simp add: updateDevices_same)
next
  case False
  define s' where "s' = snd (updateDevices updatedDevices s)"
  from updateDevices_slots [OF False]
  obtain new where ds: "datasets s' = new @ drop (length new) (datasets s)"
    and len: "length new = min (length updatedDevices) (length (datasets s))"
    and slots: "\<forall>i < length new. fresh s \<le> new ! i \<and>
                  heap s' (new ! i) =
                    (case map_of (rev (zip (map name (devices s)) (datasets s)))
                            (name (updatedDevices ! i)) of
                       Some b \<Rightarrow> heap s b
                     | None \<Rightarrow> [])"
    and rest: "\<forall>a \<in> set (drop (length new) (datasets s)). heap s' a = []"
    unfolding s'_def by blast
  have devs: "devices s' = take (length (datasets s)) updatedDevices"
    unfolding s'_def using False by (rule updateDevices_devices)
  have dlen: "length (devices s') = length new"
    unfolding devs len by (simp add: min_def)
  have dslen: "length (datasets s') = length (datasets s)"
    unfolding ds using len by simp
  have kept: "\<forall>i < length (devices s'). heap s' (datasets s' ! i) =
           (case map_of (rev (zip (map name (devices s)) (datasets s))) (name (devices s' ! i)) of
              Some b \<Rightarrow> heap s b
            | None \<Rightarrow> [])"
  proof (intro allI impI)
    fix i
    assume "i < length (devices s')"
    then have i: "i < length new" using dlen by simp
    have a: "datasets s' ! i = new ! i"
      unfolding ds using i by (simp add: nth_append)
    have "i < length (datasets s)" using i len by simp
    then have d: "devices s' ! i = updatedDevices ! i"
      unfolding devs by simp
    show "heap s' (datasets s' ! i) =
           (case map_of (rev (zip (map name (devices s)) (datasets s))) (name (devices s' ! i)) of
              Some b \<Rightarrow> heap s b
            | None \<Rightarrow> [])"
      unfolding a d using slots i by blast
  qed
  have cleared: "\<forall>i. length (devices s') \<le> i \<and> i < length (datasets s) \<longrightarrow>
         heap s' (datasets s' ! i) = []"
  proof (intro allI impI)
    fix i
    assume "length (devices s') \<le> i \<and> i < length (datasets s)"
    then have i: "length new \<le> i" "i < length (datasets s)" using dlen by simp_all
    have a: "datasets s' ! i = datasets s ! i"
      unfolding ds using i by (simp add: nth_append)
    have "i - length new < length (drop (length new) (datasets s))"
      using i by simp
    then have "drop (length new) (datasets s) ! (i - length new) \<in> set (drop (length new) (datasets s))"
      by (rule nth_mem)
    moreover have "drop (length new) (datasets s) ! (i - length new) = datasets s ! i"
      using i by simp
    ultimately have "datasets s ! i \<in> set (drop (length new) (datasets s))" by simp
    then show "heap s' (datasets s' ! i) = []"
      unfolding a using rest by blast
  qed
  have len': "length (devices s') = min (length updatedDevices) (length (datasets s))"
    using dlen len by simp
  have ch: "fst (updateDevices updatedDevices s)"
    using False by (simp add: updateDevices_changed)
  show ?thesis
    using False ch devs len' dslen kept cleared unfolding s'_def
    by (intro conjI impI) (simp_all only: simp_thms)
qed

text \<open>
  The devices \<open>A\<close>, \<open>B\<close> with the points of one frame (\<open>A\<close> at 0.5, \<open>B\<close> at 0.9),
  updated to \<open>B\<close>, \<open>A\<close>: the first dataset holds the points of \<open>B\<close>, the second
  those of \<open>A\<close>, the third is empty; updating to \<open>A\<close>, \<open>B\<close> changes nothing.
\<close>

lemma state_AB_data_fields:
  "devices state_AB_data = [\<lparr>name = ''A''\<rparr>, \<lparr>name = ''B''\<rparr>]"
  "datasets state_AB_data = [5, 6, 2, 3, 4]"
  "heap state_AB_data 5 = [\<lparr>px = 0, py = 0.5\<rparr>, \<lparr>px = 900, py = 0.5\<rparr>]"
  "heap state_AB_data 6 = [\<lparr>px = 0, py = 0.9\<rparr>, \<lparr>px = 900, py = 0.9\<rparr>]"
  "heap state_AB_data 2 = []" "heap state_AB_data 3 = []" "heap state_AB_data 4 = []"
  "tTotal state_AB_data = 1000"
  by (simp_all add: state_AB_data_def state_AB_fields addFrame_def addFrame_device_def
      mapVibeTargets_def frame_A_def STEP_SMOOTHING_def)

theorem updateDevices_effect_witness:
  "fst (updateDevices [\<lparr>name = ''B''\<rparr>, \<lparr>name = ''A''\<rparr>] state_AB_data) \<and>
   devices (snd (updateDevices [\<lparr>name = ''B''\<rparr>, \<lparr>name = ''A''\<rparr>] state_AB_data)) =
     [\<lparr>name = ''B''\<rparr>, \<lparr>name = ''A''\<rparr>] \<and>
   heap (snd (updateDevices [\<lparr>name = ''B''\<rparr>, \<lparr>name = ''A''\<rparr>] state_AB_data))
     (datasets (snd (updateDevices [\<lparr>name = ''B''\<rparr>, \<lparr>name = ''A''\<rparr>] state_AB_data)) ! 0) =
     [\<lparr>px = 0, py = 0.9\<rparr>, \<lparr>px = 900, py = 0.9\<rparr>] \<and>
   heap (snd (updateDevices [\<lparr>name = ''B''\<rparr>, \<lparr>name = ''A''\<rparr>] state_AB_data))
     (datasets (snd (updateDevices [\<lparr>name = ''B''\<rparr>, \<lparr>name = ''A''\<rparr>] state_AB_data)) ! 1) =
     [\<lparr>px = 0, py = 0.5\<rparr>, \<lparr>px = 900, py = 0.5\<rparr>] \<and>
   heap (snd (updateDevices [\<lparr>name = ''B''\<rparr>, \<lparr>name = ''A''\<rparr>] state_AB_data))
     (datasets (snd (updateDevices [\<lparr>name = ''B''\<rparr>, \<lparr>name = ''A''\<rparr>] state_AB_data)) ! 2) = [] \<and>
   updateDevices [\<lparr>name = ''A''\<rparr>, \<lparr>name = ''B''\<rparr>] state_AB_data = (False, state_AB_data)"
  using updateDevices_effect [of "[\<lparr>name = ''B''\<rparr>, \<lparr>name = ''A''\<rparr>]" state_AB_data]
    updateDevices_effect [of "[\<lparr>name = ''A''\<rparr>, \<lparr>name = ''B''\<rparr>]" state_AB_data]
  by (simp add: state_AB_data_fields updateDevices_def Let_def rebuild_def copy_old_def fresh_def)

text \<open>
  When the names of the current list are distinct, the dataset of a device that was in the
  list holds, after the update, the data its dataset held before.
\<close>

lemma updateDevices_moves_data:
  assumes "map name updatedDevices \<noteq> map name (devices s)"
    and "distinct (map name (devices s))"
    and "j < length (devices s)" and "j < length (datasets s)"
    and "i < length updatedDevices" and "i < length (datasets s)"
    and "name (updatedDevices ! i) = name (devices s ! j)"
  shows "heap (snd (updateDevices updatedDevices s)) (datasets (snd (updateDevices updatedDevices s)) ! i) =
         heap s (datasets s ! j)"
proof -
  from updateDevices_slots [OF assms(1)]
  obtain new where ds: "datasets (snd (updateDevices updatedDevices s)) = new @ drop (length new) (datasets s)"
    and len: "length new = min (length updatedDevices) (length (datasets s))"
    and slots: "\<forall>i < length new.
                  fresh s \<le> new ! i \<and>
                  heap (snd (updateDevices updatedDevices s)) (new ! i) =
                    (case map_of (rev (zip (map name (devices s)) (datasets s)))
                            (name (updatedDevices ! i)) of
                       Some b \<Rightarrow> heap s b
                     | None \<Rightarrow> [])"
    by blast
  have i: "i < length new" using assms(5,6) len by simp
  have a: "datasets (snd (updateDevices updatedDevices s)) ! i = new ! i"
    unfolding ds using i by (simp add: nth_append)
  have "distinct (map fst (rev (zip (map name (devices s)) (datasets s))))"
    using assms(2) by (simp add: rev_map [symmetric] map_fst_zip_take)
  moreover have "(name (devices s ! j), datasets s ! j) \<in> set (rev (zip (map name (devices s)) (datasets s)))"
  proof -
    have "j < length (zip (map name (devices s)) (datasets s))"
      using assms(3,4) by simp
    then have "zip (map name (devices s)) (datasets s) ! j \<in> set (zip (map name (devices s)) (datasets s))"
      by (rule nth_mem)
    then show ?thesis using assms(3,4) by simp
  qed
  ultimately have "map_of (rev (zip (map name (devices s)) (datasets s))) (name (devices s ! j)) =
      Some (datasets s ! j)"
    by (rule map_of_is_SomeI)
  then show ?thesis
    unfolding a using slots i assms(7) by simp
qed

section \<open>Datasets with arrays of their own\<close>

text \<open>
  The copies of the first loop of \<open>updateDevices\<close> are at different addresses for
  different names, so a new list without a repeated name gives every dataset an array of
  its own.
\<close>

lemma copy_old_inj:
  assumes "\<forall>x a. m x = Some a \<longrightarrow> a < n"
    and "\<forall>x y a. m x = Some a \<and> m y = Some a \<longrightarrow> x = y"
  shows "(\<forall>x a. fst (foldl copy_old (m, h, n) dds) x = Some a \<longrightarrow>
            a < snd (snd (foldl copy_old (m, h, n) dds))) \<and>
         (\<forall>x y a. fst (foldl copy_old (m, h, n) dds) x = Some a \<and>
            fst (foldl copy_old (m, h, n) dds) y = Some a \<longrightarrow> x = y)"
  using assms
proof (induction dds arbitrary: m h n)
  case Nil
  then show ?case by simp
next
  case (Cons dd dds)
  let ?m = "m(name (fst dd) \<mapsto> n)" and ?h = "h(n := h (snd dd))"
  have step: "foldl copy_old (m, h, n) (dd # dds) = foldl copy_old (?m, ?h, Suc n) dds"
    by (simp add: copy_old_def)
  have below: "\<forall>x a. ?m x = Some a \<longrightarrow> a < Suc n"
    using Cons.prems(1) by (auto simp: less_Suc_eq)
  have inj: "\<forall>x y a. ?m x = Some a \<and> ?m y = Some a \<longrightarrow> x = y"
  proof (intro allI impI)
    fix x y a
    assume a: "?m x = Some a \<and> ?m y = Some a"
    show "x = y"
    proof (cases "x = name (fst dd)")
      case True
      then have an: "a = n" using a by simp
      show ?thesis
      proof (cases "y = name (fst dd)")
        case True
        then show ?thesis using \<open>x = name (fst dd)\<close> by simp
      next
        case False
        then have "m y = Some a" using a by simp
        then have "a < n" using Cons.prems(1) by blast
        then show ?thesis using an by simp
      qed
    next
      case False
      then have "m x = Some a" using a by simp
      then have "a < n" using Cons.prems(1) by blast
      then have "y \<noteq> name (fst dd)" using a by auto
      then show ?thesis using a False Cons.prems(2) by auto
    qed
  qed
  show ?case
    unfolding step by (rule Cons.IH [OF below inj])
qed

lemma rebuild_distinct:
  assumes "\<forall>x y a. m x = Some a \<and> m y = Some a \<longrightarrow> x = y"
    and "\<forall>x a. m x = Some a \<longrightarrow> a < n0"
    and "n0 \<le> n"
    and "distinct (map name ds)"
    and "distinct refs"
    and "\<forall>ref \<in> set refs. ref < n \<and> (\<forall>d \<in> set ds. m (name d) \<noteq> Some ref)"
  shows "distinct (fst (foldl (rebuild m) (refs, h, n) ds))"
  using assms(3-6)
proof (induction ds arbitrary: refs h n)
  case Nil
  then show ?case by simp
next
  case (Cons d ds)
  show ?case
  proof (cases "m (name d)")
    case (Some a)
    have step: "foldl (rebuild m) (refs, h, n) (d # ds) = foldl (rebuild m) (refs @ [a], h, n) ds"
      using Some by (simp add: rebuild_def)
    have "a \<notin> set refs" using Cons.prems(4) Some by auto
    then have d1: "distinct (refs @ [a])" using Cons.prems(3) by simp
    have "a < n" using assms(2) Some Cons.prems(1) by fastforce
    moreover have "\<forall>d' \<in> set ds. m (name d') \<noteq> Some a"
    proof
      fix d'
      assume d': "d' \<in> set ds"
      show "m (name d') \<noteq> Some a"
      proof
        assume "m (name d') = Some a"
        then have "name d' = name d" using assms(1) Some by blast
        moreover have "name d' \<in> name ` set ds" using d' by (rule imageI)
        ultimately show False using Cons.prems(2) by simp
      qed
    qed
    ultimately have d2: "\<forall>ref \<in> set (refs @ [a]). ref < n \<and> (\<forall>d \<in> set ds. m (name d) \<noteq> Some ref)"
      using Cons.prems(4) by auto
    have d3: "distinct (map name ds)" using Cons.prems(2) by simp
    show ?thesis
      unfolding step by (rule Cons.IH [OF Cons.prems(1) d3 d1 d2])
  next
    case None
    have step: "foldl (rebuild m) (refs, h, n) (d # ds) =
        foldl (rebuild m) (refs @ [n], h(n := []), Suc n) ds"
      using None by (simp add: rebuild_def)
    have "n \<notin> set refs" using Cons.prems(4) by auto
    then have d1: "distinct (refs @ [n])" using Cons.prems(3) by simp
    have "\<forall>d' \<in> set ds. m (name d') \<noteq> Some n"
      using assms(2) Cons.prems(1) by fastforce
    then have d2: "\<forall>ref \<in> set (refs @ [n]). ref < Suc n \<and> (\<forall>d \<in> set ds. m (name d) \<noteq> Some ref)"
      using Cons.prems(4) by (auto simp: less_Suc_eq)
    have d3: "distinct (map name ds)" using Cons.prems(2) by simp
    have d0: "n0 \<le> Suc n" using Cons.prems(1) by simp
    show ?thesis
      unfolding step by (rule Cons.IH [OF d0 d3 d1 d2])
  qed
qed

lemma updateDevices_slots_ok:
  assumes ok: "slots_ok s" and names: "distinct (map name updatedDevices)"
  shows "slots_ok (snd (updateDevices updatedDevices s))"
proof (cases "map name updatedDevices = map name (devices s)")
  case True
  then show ?thesis using ok by (simp add: updateDevices_same)
next
  case False
  define dds where "dds = zip (devices s) (datasets s)"
  define old where "old = foldl copy_old (Map.empty, heap s, fresh s) dds"
  define devs where "devs = take (length (datasets s)) updatedDevices"
  define r where "r = foldl (rebuild (fst old)) ([], fst (snd old), snd (snd old)) devs"
  define leftover where "leftover = drop (length devs) (datasets s)"
  have ds: "datasets (snd (updateDevices updatedDevices s)) = fst r @ leftover"
    and dv: "devices (snd (updateDevices updatedDevices s)) = devs"
    unfolding updateDevices_def same_names using False
    by (simp_all add: Let_def leftover_def r_def devs_def old_def dds_def)
  have below: "\<forall>dd \<in> set dds. snd dd < fresh s"
    unfolding dds_def by (auto dest!: set_zip_rightD intro: fresh_above)
  have n1: "snd (snd old) = fresh s + length dds"
    using copy_old_fold [OF below, of Map.empty "heap s"] by (simp add: old_def)
  have inj: "(\<forall>x a. fst old x = Some a \<longrightarrow> a < snd (snd old)) \<and>
         (\<forall>x y a. fst old x = Some a \<and> fst old y = Some a \<longrightarrow> x = y)"
    unfolding old_def by (rule copy_old_inj) simp_all
  have dn: "distinct (map name devs)"
    using names by (simp add: devs_def take_map [symmetric])
  have dist_new: "distinct (fst r)"
    unfolding r_def
    by (rule rebuild_distinct [where ?n0.0 = "snd (snd old)"]) (use inj dn in simp_all)
  obtain new where new: "fst r = [] @ new"
    and all: "list_all2 (\<lambda>d ref.
               (case fst old (name d) of Some a \<Rightarrow> ref = a | None \<Rightarrow> snd (snd old) \<le> ref) \<and>
               fst (snd r) ref = (case fst old (name d) of Some a \<Rightarrow> fst (snd old) a | None \<Rightarrow> [])) devs new"
    using rebuild_fold [of "fst old" "snd (snd old)" "[]" "fst (snd old)" devs] inj
    unfolding r_def by blast
  have len: "length (fst r) = length devs"
    using all new by (simp add: list_all2_lengthD)
  have above: "fresh s \<le> ref" if "ref \<in> set (fst r)" for ref
  proof -
    from that obtain i where i: "i < length new" and ri: "ref = new ! i"
      using new by (auto simp: in_set_conv_nth)
    have "i < length devs" using i len new by simp
    then have "case fst old (name (devs ! i)) of Some a \<Rightarrow> new ! i = a
        | None \<Rightarrow> snd (snd old) \<le> new ! i"
      using list_all2_nthD [OF all, of i] by blast
    then have P: "case fst old (name (devs ! i)) of Some a \<Rightarrow> ref = a | None \<Rightarrow> snd (snd old) \<le> ref"
      unfolding ri .
    show ?thesis
    proof (cases "fst old (name (devs ! i))")
      case None
      then show ?thesis using P n1 by simp
    next
      case (Some a)
      have "case map_of (rev (map (\<lambda>dd. (name (fst dd), snd dd)) dds)) (name (devs ! i)) of
            None \<Rightarrow> fst old (name (devs ! i)) = Map.empty (name (devs ! i))
          | Some b \<Rightarrow> (\<exists>a. fst old (name (devs ! i)) = Some a \<and> fresh s \<le> a \<and>
                          a < fresh s + length dds \<and> fst (snd old) a = heap s b)"
        using copy_old_fold [OF below, of Map.empty "heap s" "name (devs ! i)"]
        unfolding old_def by blast
      then have "fresh s \<le> a" using Some
        by (cases "map_of (rev (map (\<lambda>dd. (name (fst dd), snd dd)) dds)) (name (devs ! i))") auto
      then show ?thesis using P Some by simp
    qed
  qed
  have "set (fst r) \<inter> set leftover = {}"
  proof -
    have "a < fresh s" if "a \<in> set leftover" for a
      using that unfolding leftover_def by (auto dest!: in_set_dropD intro: fresh_above)
    then show ?thesis using above by fastforce
  qed
  moreover have "distinct leftover"
    using ok by (simp add: leftover_def slots_ok_def)
  ultimately have "distinct (fst r @ leftover)"
    using dist_new by simp
  moreover have "length devs \<le> length (fst r @ leftover)"
    using len by simp
  ultimately show ?thesis
    unfolding slots_ok_def ds dv by simp
qed

text \<open>
  The other functions leave the device list and the addresses of the datasets as they
  are, so the datasets stay in order along every run whose device lists repeat no name.
\<close>

lemma advance_slots: "slots_ok (snd (advance amount s)) = slots_ok s"
  by (simp add: slots_ok_def advance_def)

lemma addFrame_slots: "slots_ok (snd (addFrame frame s)) = slots_ok s"
  by (simp add: slots_ok_def addFrame_fields)

lemma prune_slots: "slots_ok (snd (prune s)) = slots_ok s"
  by (simp add: slots_ok_def prune_fields)

lemma update_slots: "slots_ok (snd (update adv t s)) = slots_ok s"
  by (simp add: slots_ok_def update_def Let_def prune_fields)

lemma resetGroup_slots: "slots_ok (snd (resetGroup s)) = slots_ok s"
  by (simp add: slots_ok_def resetGroup_fields)

lemma addFrames_slots:
  "slots_ok (snd (foldl (\<lambda>acc frame. (fst (addFrame frame (snd acc)) \<or> fst acc, snd (addFrame frame (snd acc))))
      acc fs)) = slots_ok (snd acc)"
  by (induction fs arbitrary: acc) (simp_all add: addFrame_slots)

lemma setGroup_slots: "slots_ok (snd (setGroup grp s)) = slots_ok s"
proof -
  have "slots_ok ((snd (resetGroup s))\<lparr>username := group_username grp\<rparr>) = slots_ok s"
    using resetGroup_slots [of s] by (simp add: slots_ok_def)
  then show ?thesis
    by (simp add: setGroup_def Let_def addFrames_slots)
qed

lemma updateLoop_slots: "slots_ok (updateLoop t s) = slots_ok s"
proof (cases "isEmpty s")
  case True
  have "slots_ok (s\<lparr>rafId := 0\<rparr>) = slots_ok s" by (simp add: slots_ok_def)
  then show ?thesis using True by (simp add: updateLoop_def resetGroup_slots)
next
  case False
  have "slots_ok ((snd (update True t s))\<lparr>rafId := 1\<rparr>) = slots_ok (snd (update True t s))"
    by (simp add: slots_ok_def)
  then show ?thesis using False by (simp add: updateLoop_def update_slots)
qed

lemma startUpdateLoop_slots: "slots_ok (startUpdateLoop t s) = slots_ok s"
  by (simp add: startUpdateLoop_def updateLoop_slots)

lemma onmessage_slots:
  assumes "slots_ok s" and "names_distinct (OpMessage m t1 t2)"
  shows "slots_ok (onmessage m t1 t2 s)"
proof -
  define r where "r = (case m of
                 Ping \<Rightarrow> (False, s)
               | UpdateConfig c \<Rightarrow> (False, s\<lparr>config := c\<rparr>)
               | UpdateDevices ds \<Rightarrow> updateDevices ds s
               | ResetGroup \<Rightarrow> (False, snd (resetGroup s))
               | SetGroup g \<Rightarrow> (let a = setGroup g s in (fst a, startUpdateLoop t1 (snd a)))
               | AddFrame f \<Rightarrow> (let a = addFrame f s in (fst a, startUpdateLoop t1 (snd a)))
               | Advance amount \<Rightarrow> advance amount s
               | Unknown _ \<Rightarrow> (False, s))"
  have "slots_ok (snd r)"
  proof (cases m)
    case (UpdateConfig c)
    then show ?thesis using assms(1) by (simp add: r_def slots_ok_def)
  next
    case (UpdateDevices ds)
    then show ?thesis using assms by (simp add: r_def updateDevices_slots_ok)
  qed (use assms(1) in \<open>simp_all add: r_def Let_def startUpdateLoop_slots setGroup_slots
        addFrame_slots resetGroup_slots advance_slots\<close>)
  then have "slots_ok (if fst r then snd (update False t2 (snd r)) else snd r)"
    by (simp add: update_slots)
  moreover have "onmessage m t1 t2 s = (if fst r then snd (update False t2 (snd r)) else snd r)"
    by (simp add: onmessage_def r_def Let_def)
  ultimately show ?thesis by simp
qed

lemma apply_op_slots: "slots_ok s \<Longrightarrow> names_distinct x \<Longrightarrow> slots_ok (apply_op s x)"
  by (cases x)
    (simp_all add: advance_slots update_slots addFrame_slots setGroup_slots resetGroup_slots
      updateDevices_slots_ok prune_slots updateLoop_slots onmessage_slots)

lemma run_slots: "slots_ok s \<Longrightarrow> list_all names_distinct ops \<Longrightarrow> slots_ok (run ops s)"
  by (induction ops arbitrary: s) (simp_all add: run_def apply_op_slots)

lemma slots_ok_reachable: "list_all names_distinct ops \<Longrightarrow> slots_ok (run ops init_state)"
  by (rule run_slots) (simp_all add: slots_ok_def init_datasets init_fields)

section \<open>addFrame: the points pushed for every entry\<close>

text \<open>
  When no other paired dataset holds the array of the dataset at index \<open>i\<close>, only the
  entry at \<open>i\<close> contributes to that array.
\<close>

lemma concat_at_unshared:
  "i < length xs \<Longrightarrow> i < length ys \<Longrightarrow>
   \<forall>j. j < length xs \<and> j < length ys \<and> j \<noteq> i \<longrightarrow> ys ! j \<noteq> ys ! i \<Longrightarrow>
   concat (map (\<lambda>dd. if snd dd = ys ! i then g (fst dd) else []) (zip xs ys)) = g (xs ! i)"
proof (induction xs arbitrary: ys i)
  case Nil
  then show ?case by simp
next
  case (Cons x xs)
  then obtain y ys' where ys: "ys = y # ys'" by (cases ys) auto
  show ?case
  proof (cases i)
    case 0
    have "snd dd \<noteq> y" if "dd \<in> set (zip xs ys')" for dd
    proof -
      from that obtain k where k: "k < length xs" "k < length ys'" "dd = (xs ! k, ys' ! k)"
        by (auto simp: set_zip)
      have "ys ! Suc k \<noteq> ys ! i"
        using Cons.prems(3) k ys 0 by (metis Suc_less_eq length_Cons nat.distinct(1))
      then show ?thesis using k ys 0 by simp
    qed
    then have "concat (map (\<lambda>dd. if snd dd = y then g (fst dd) else []) (zip xs ys')) = []"
      by (induction "zip xs ys'") auto
    then show ?thesis using 0 ys by simp
  next
    case (Suc j)
    have "ys ! 0 \<noteq> ys ! i"
      using Cons.prems ys Suc by (metis length_Cons nat.distinct(1) zero_less_Suc)
    then have ne: "y \<noteq> ys' ! j" using ys Suc by simp
    have sh: "\<forall>k. k < length xs \<and> k < length ys' \<and> k \<noteq> j \<longrightarrow> ys' ! k \<noteq> ys' ! j"
    proof (intro allI impI)
      fix k
      assume k: "k < length xs \<and> k < length ys' \<and> k \<noteq> j"
      then have "Suc k < length (x # xs) \<and> Suc k < length ys \<and> Suc k \<noteq> i"
        using ys Suc by simp
      then have "ys ! Suc k \<noteq> ys ! i" using Cons.prems(3) by blast
      then show "ys' ! k \<noteq> ys' ! j" using ys Suc by simp
    qed
    have "concat (map (\<lambda>dd. if snd dd = ys' ! j then g (fst dd) else []) (zip xs ys')) = g (xs ! j)"
      using Cons.IH [of j ys'] Cons.prems(1,2) ys Suc sh by simp
    then show ?thesis using Suc ys ne by simp
  qed
qed

lemma state_XX_fields:
  "devices state_XX = [\<lparr>name = ''X''\<rparr>, \<lparr>name = ''X''\<rparr>]"
  "datasets state_XX = [6, 6, 2, 3, 4]"
  "heap state_XX a = []" "tTotal state_XX = 0"
  by (simp_all add: state_XX_def state_X_fields updateDevices_def Let_def rebuild_def
      copy_old_def fresh_def)

text \<open>
  Claim C3, as the code has it. For a frame with a positive duration, \<open>addFrame\<close> pushes,
  for every entry of the device list that has a dataset and resolves a target of value
  \<open>v\<close>, the two points \<open>(total, v)\<close> and
  \<open>(total + duration - min (duration * 0.2) 100, v)\<close> onto the array that the entry's
  dataset holds, in the order of the list: an array gets two points for every such entry
  whose dataset holds it. The array of the dataset at index \<open>i\<close> gets exactly the two
  points of its device, or nothing when the device resolves no target, when no other
  dataset of a device holds the same array. \<open>addFrame\<close> returns true exactly when some
  entry with a dataset resolves a target (some device of the list, when every device has a
  dataset), and \<open>total\<close> grows by the duration exactly then.
\<close>

theorem addFrame_pushes:
  assumes "0 < duration frame"
  shows "heap (snd (addFrame frame s)) a =
           heap s a @ concat (map (\<lambda>dd. if snd dd = a
              then (case mapVibeTargets frame s (name (fst dd)) of
                      None \<Rightarrow> []
                    | Some target \<Rightarrow>
                        [\<lparr>px = tTotal s, py = target_value target\<rparr>,
                         \<lparr>px = tTotal s + duration frame - min (duration frame * 0.2) 100,
                          py = target_value target\<rparr>])
              else []) (zip (devices s) (datasets s))) \<and>
         (i < length (devices s) \<and> i < length (datasets s) \<and>
          (\<forall>j. j < length (devices s) \<and> j < length (datasets s) \<and> j \<noteq> i \<longrightarrow>
                datasets s ! j \<noteq> datasets s ! i) \<longrightarrow>
            heap (snd (addFrame frame s)) (datasets s ! i) =
              (case mapVibeTargets frame s (name (devices s ! i)) of
                 None \<Rightarrow> heap s (datasets s ! i)
               | Some target \<Rightarrow>
                   heap s (datasets s ! i) @
                     [\<lparr>px = tTotal s, py = target_value target\<rparr>,
                      \<lparr>px = tTotal s + duration frame - min (duration frame * 0.2) 100,
                       py = target_value target\<rparr>])) \<and>
         fst (addFrame frame s) =
           (\<exists>dd \<in> set (zip (devices s) (datasets s)).
              mapVibeTargets frame s (name (fst dd)) \<noteq> None) \<and>
         (length (devices s) \<le> length (datasets s) \<longrightarrow>
            fst (addFrame frame s) =
              (\<exists>d \<in> set (devices s). mapVibeTargets frame s (name d) \<noteq> None)) \<and>
         tTotal (snd (addFrame frame s)) =
           (if fst (addFrame frame s) then tTotal s + duration frame else tTotal s)"
proof -
  let ?g = "\<lambda>d. case mapVibeTargets frame s (name d) of
           None \<Rightarrow> []
         | Some target \<Rightarrow>
             [\<lparr>px = tTotal s, py = target_value target\<rparr>,
              \<lparr>px = tTotal s + duration frame - min (duration frame * 0.2) STEP_SMOOTHING,
               py = target_value target\<rparr>]"
  have general: "heap (snd (addFrame frame s)) b =
      heap s b @ concat (map (\<lambda>dd. if snd dd = b then ?g (fst dd) else []) (zip (devices s) (datasets s)))"
    for b
    using addFrame_heap [OF assms, of s b] by simp
  have own: "heap (snd (addFrame frame s)) (datasets s ! i) =
              (case mapVibeTargets frame s (name (devices s ! i)) of
                 None \<Rightarrow> heap s (datasets s ! i)
               | Some target \<Rightarrow>
                   heap s (datasets s ! i) @
                     [\<lparr>px = tTotal s, py = target_value target\<rparr>,
                      \<lparr>px = tTotal s + duration frame - min (duration frame * 0.2) STEP_SMOOTHING,
                       py = target_value target\<rparr>])"
    if "i < length (devices s) \<and> i < length (datasets s) \<and>
          (\<forall>j. j < length (devices s) \<and> j < length (datasets s) \<and> j \<noteq> i \<longrightarrow>
                datasets s ! j \<noteq> datasets s ! i)"
  proof -
    have "concat (map (\<lambda>dd. if snd dd = datasets s ! i then ?g (fst dd) else [])
            (zip (devices s) (datasets s))) = ?g (devices s ! i)"
      using that by (intro concat_at_unshared) simp_all
    then have "heap (snd (addFrame frame s)) (datasets s ! i) =
        heap s (datasets s ! i) @ ?g (devices s ! i)"
      unfolding general by simp
    then show ?thesis by (simp split: option.splits)
  qed
  have changed: "fst (addFrame frame s) =
           (\<exists>dd \<in> set (zip (devices s) (datasets s)).
              mapVibeTargets frame s (name (fst dd)) \<noteq> None)"
    using assms by (rule addFrame_changed)
  have listed: "fst (addFrame frame s) =
              (\<exists>d \<in> set (devices s). mapVibeTargets frame s (name d) \<noteq> None)"
    if "length (devices s) \<le> length (datasets s)"
  proof -
    have "(\<exists>dd \<in> set (zip (devices s) (datasets s)). mapVibeTargets frame s (name (fst dd)) \<noteq> None) =
          (\<exists>d \<in> fst ` set (zip (devices s) (datasets s)). mapVibeTargets frame s (name d) \<noteq> None)"
      by auto
    then show ?thesis
      unfolding changed using that by (simp add: zip_fst_set)
  qed
  have tot: "tTotal (snd (addFrame frame s)) =
           (if fst (addFrame frame s) then tTotal s + duration frame else tTotal s)"
    by (rule addFrame_total)
  show ?thesis
    using general [of a] own changed listed tot
    unfolding STEP_SMOOTHING_def by blast
qed

text \<open>
  The example of the claim: the device list \<open>[X]\<close>, no sample yet, and a frame of 1000 ms
  with the value 1 in OVERRIDE mode.
\<close>

theorem addFrame_pushes_witness:
  "heap (snd (addFrame frame_1000 state_X)) 5 = [\<lparr>px = 0, py = 1\<rparr>, \<lparr>px = 900, py = 1\<rparr>] \<and>
   heap (snd (addFrame frame_1000 state_X)) 1 = [] \<and>
   fst (addFrame frame_1000 state_X) \<and>
   tTotal (snd (addFrame frame_1000 state_X)) = 1000"
  using addFrame_pushes [of frame_1000 state_X 5 0] addFrame_pushes [of frame_1000 state_X 1 0]
  by (simp add: state_X_fields frame_1000_def mapVibeTargets_def)

text \<open>
  The device list \<open>[X]\<close> updated to \<open>[X, X]\<close>: the two datasets hold the same array, and
  one frame appends four points to it, not two.
\<close>

theorem addFrame_shared_array_counterexample:
  "devices state_XX = [\<lparr>name = ''X''\<rparr>, \<lparr>name = ''X''\<rparr>] \<and>
   datasets state_XX ! 0 = 6 \<and> datasets state_XX ! 1 = 6 \<and>
   heap state_XX 6 = [] \<and>
   heap (snd (addFrame frame_1000 state_XX)) 6 =
     [\<lparr>px = 0, py = 1\<rparr>, \<lparr>px = 900, py = 1\<rparr>, \<lparr>px = 0, py = 1\<rparr>, \<lparr>px = 900, py = 1\<rparr>] \<and>
   heap (snd (addFrame frame_1000 state_XX)) 6 \<noteq>
     heap state_XX 6 @ [\<lparr>px = 0, py = 1\<rparr>, \<lparr>px = 900, py = 1\<rparr>]"
  by (simp add: state_XX_fields addFrame_def addFrame_device_def mapVibeTargets_def
      frame_1000_def STEP_SMOOTHING_def)

text \<open>
  Against claim C9 as it is written: the same state has every array empty, and the times
  of the shared array after one frame are not in order.
\<close>

theorem monotonic_time_shared_array_counterexample:
  "list_all (\<lambda>a. heap state_XX a = []) (datasets state_XX) \<and>
   tTotal state_XX = 0 \<and>
   map px (heap (run (map OpAddFrame [frame_1000]) state_XX) 6) = [0, 900, 0, 900] \<and>
   \<not> sorted (map px (heap (run (map OpAddFrame [frame_1000]) state_XX) 6))"
  by (simp add: state_XX_fields run_def addFrame_def addFrame_device_def mapVibeTargets_def
      frame_1000_def STEP_SMOOTHING_def)

section \<open>prune: any array, and arrays in time order\<close>






text \<open>
  The devices \<open>A\<close>, \<open>B\<close>, a frame of 1000 ms for \<open>B\<close> only, a reset (which leaves the
  points of \<open>B\<close>, the first dataset being empty), a frame of 500 ms for \<open>B\<close> only, and
  \<open>now\<close> at 5450: the times of \<open>B\<close> are 0, 900, 0, 400, \<open>prune\<close> removes nothing,
  and three points before the bound 450 stay.
\<close>

lemma state_unordered_fields:
  "datasets state_unordered = [5, 6, 2, 3, 4]"
  "map px (heap state_unordered 6) = [0, 900, 0, 400]"
  "tNow state_unordered = 5450"
  by (simp_all add: state_unordered_def run_def state_AB_fields addFrame_def addFrame_device_def
      mapVibeTargets_def frame_B_def STEP_SMOOTHING_def advance_def resetGroup_def Let_def
      isEmpty_def getLength_def)


end
